theory Spec2Isabelle
  imports Main "HOL-Library.AList"
begin

section \<open>Release triage scripts\<close>

text \<open>
  A model of the release library (\<open>tasks/release/releaseLib.mjs\<close>) and of the part of the
  \<open>triage-next\<close> command that the statements below are about. Every \<open>throw\<close> of the
  JavaScript is a value \<open>Inl e\<close> of the model.
\<close>

datatype error = TypeError | SyntaxError | ENOENT | ProcessOutput

section \<open>Strings and patterns\<close>

text \<open>
  A JavaScript string is a sequence of UTF-16 code units; here it is a \<open>string\<close>, one
  \<open>char\<close> for each code unit, so the model covers the code units below 256. The
  character classes are those of a regular expression without the \<open>u\<close> flag:
  \<open>\w\<close> is \<open>[A-Za-z0-9_]\<close>, \<open>\d\<close> is \<open>[0-9]\<close>, \<open>\s\<close> (and the white space \<open>trim\<close> removes)
  is TAB, LF, VT, FF, CR, space and U+00A0 in this range, and \<open>.\<close> is every code unit but
  the line terminators LF and CR.
\<close>

definition is_digit :: "char \<Rightarrow> bool" where
  "is_digit c = (let n = (of_char c :: nat) in 48 \<le> n \<and> n \<le> 57)"

definition is_word :: "char \<Rightarrow> bool" where
  "is_word c =
     (let n = (of_char c :: nat)
      in (65 \<le> n \<and> n \<le> 90) \<or> (97 \<le> n \<and> n \<le> 122) \<or> (48 \<le> n \<and> n \<le> 57) \<or> n = 95)"

definition is_space :: "char \<Rightarrow> bool" where
  "is_space c = (let n = (of_char c :: nat) in (9 \<le> n \<and> n \<le> 13) \<or> n = 32 \<or> n = 160)"

definition is_line_terminator :: "char \<Rightarrow> bool" where
  "is_line_terminator c = (let n = (of_char c :: nat) in n = 10 \<or> n = 13)"

definition backslash :: char where
  "backslash = CHR 0x5C"

definition newline :: char where
  "newline = CHR 0x0A"

text \<open>\<open>s.startsWith(p)\<close>, \<open>s.includes(p)\<close>, \<open>s.trim()\<close>, \<open>s.split(c)\<close> for a one-character separator.\<close>

definition startsWith :: "string \<Rightarrow> string \<Rightarrow> bool" where
  "startsWith s p = (take (length p) s = p)"

fun str_includes :: "string \<Rightarrow> string \<Rightarrow> bool" where
  "str_includes [] p = (p = [])"
| "str_includes (c # cs) p = (startsWith (c # cs) p \<or> str_includes cs p)"

definition trim :: "string \<Rightarrow> string" where
  "trim s = rev (dropWhile is_space (rev (dropWhile is_space s)))"

fun split :: "string \<Rightarrow> char \<Rightarrow> string list" where
  "split [] sep = [[]]"
| "split (c # cs) sep =
     (if c = sep then [] # split cs sep
      else (c # hd (split cs sep)) # tl (split cs sep))"

text \<open>
  \<open>s.replace(p, r)\<close> with a string pattern replaces the first occurrence of \<open>p\<close> only.
  The replacement strings of this library contain no \<open>$\<close>, so no substitution pattern
  of \<open>replace\<close> is involved.
\<close>

fun replace :: "string \<Rightarrow> string \<Rightarrow> string \<Rightarrow> string" where
  "replace [] p r = (if p = [] then r else [])"
| "replace (c # cs) p r =
     (if startsWith (c # cs) p then r @ drop (length p) (c # cs)
      else c # replace cs p r)"

text \<open>\<open>commit.match(/\w{9}/)\<close>: the index of the leftmost run of nine word characters.\<close>

fun match_w9 :: "string \<Rightarrow> nat option" where
  "match_w9 [] = None"
| "match_w9 (c # cs) =
     (if 9 \<le> length (c # cs) \<and> list_all is_word (take 9 (c # cs)) then Some 0
      else map_option Suc (match_w9 cs))"

text \<open>\<open>PR = /#(?<pr>\d+)/\<close>: the digits after the leftmost \<open>#\<close> that a digit follows.\<close>

fun match_PR :: "string \<Rightarrow> string option" where
  "match_PR [] = None"
| "match_PR (c # cs) =
     (if c = CHR ''#'' \<and> cs \<noteq> [] \<and> is_digit (hd cs) then Some (takeWhile is_digit cs)
      else match_PR cs)"

text \<open>
  \<open>HASH = /\s(?<hash>\w{40})\s/\<close>: forty word characters between two white-space
  characters, leftmost match.
\<close>

fun match_HASH :: "string \<Rightarrow> string option" where
  "match_HASH [] = None"
| "match_HASH (c # cs) =
     (if is_space c \<and> 41 \<le> length cs \<and> list_all is_word (take 40 cs) \<and> is_space (cs ! 40)
      then Some (take 40 cs)
      else match_HASH cs)"

text \<open>
  \<open>ANNOTATED_TAG_MESSAGE = /^v\d.\d.\d$/\<close>: six code units, \<open>v\<close>, a digit, any character,
  a digit, any character, a digit (the dots of the pattern are not escaped).
\<close>

definition ANNOTATED_TAG_MESSAGE :: "string \<Rightarrow> bool" where
  "ANNOTATED_TAG_MESSAGE m =
     (case m of
        [v, a, x, b, y, c] \<Rightarrow>
          v = CHR ''v'' \<and> is_digit a \<and> \<not> is_line_terminator x \<and> is_digit b \<and>
          \<not> is_line_terminator y \<and> is_digit c
      | _ \<Rightarrow> False)"

text \<open>\<open>/Merge branch (?<branch>.*) into next/.test(line)\<close>\<close>

fun match_merge_into_next :: "string \<Rightarrow> bool" where
  "match_merge_into_next [] = False"
| "match_merge_into_next (c # cs) =
     ((startsWith (c # cs) ''Merge branch '' \<and>
       str_includes (takeWhile (\<lambda>x. \<not> is_line_terminator x) (drop 13 (c # cs))) '' into next'')
      \<or> match_merge_into_next cs)"

section \<open>The release library\<close>

subsection \<open>Data\<close>

text \<open>
  The triage decisions are kept in a \<open>Map\<close> from commit hash to
  \<open>{ message, needsCherryPick }\<close>. A \<open>Map\<close> iterates in insertion order and holds each key
  once, so it is an association list whose keys are distinct (the hypothesis
  \<open>distinct (map fst d)\<close> of the theorems about it).
\<close>

record entry =
  message :: string
  needsCherryPick :: bool

type_synonym data = "(string \<times> entry) list"

text \<open>The result of \<open>parseCommit\<close>.\<close>

record parsed_commit =
  hash :: string
  message :: string
  pr :: "string option"

text \<open>
  The objects \<open>mungeCommits\<close> builds. \<open>hash\<close>, \<open>message\<close> and \<open>pr\<close> are only assigned on
  lines that are not graph UI, so they are optional here (\<open>undefined\<close> is \<open>None\<close>). The
  functions of \<open>chalk\<close> that decorate \<open>pretty\<close> are constructors.
\<close>

datatype commit_type = Commit | Ui | Chore | Tag

datatype pretty = Plain string | Dim string | DimBlue string | DimHex string string

record commit =
  line :: string
  ref :: string
  type :: commit_type
  pretty :: pretty
  hash :: "string option"
  message :: "string option"
  pr :: "string option"

subsection \<open>\<open>parseCommit\<close>\<close>

text \<open>
  \<open>const [hash] = match\<close> destructures the result of \<open>match\<close>, which is \<open>null\<close> when the
  line has no run of nine word characters; destructuring \<open>null\<close> throws a \<open>TypeError\<close>.
\<close>

definition parseCommit :: "string \<Rightarrow> error + parsed_commit" where
  "parseCommit commit =
     (case match_w9 commit of
        None \<Rightarrow> Inl TypeError
      | Some index \<Rightarrow>
          (let hash' = take 9 (drop index commit);
               message' = drop (index + 10) commit;
               pr' = match_PR message'
           in Inr \<lparr>parsed_commit.hash = hash', message = message', pr = pr'\<rparr>))"

subsection \<open>\<open>purgeData\<close>\<close>

text \<open>
  The two loops of \<open>purgeData\<close> do not look at the values of the cache, so they are
  defined for a \<open>Map\<close> with any values. \<open>data.delete(key)\<close>:
\<close>

definition map_delete :: "string \<Rightarrow> (string \<times> 'v) list \<Rightarrow> (string \<times> 'v) list" where
  "map_delete k d = filter (\<lambda>(k', _). k' \<noteq> k) d"

text \<open>
  First loop of \<open>purgeData\<close>: \<open>for (const dataHash of data.keys())\<close>, deleting the current
  key when \<open>commitHashes.includes(dataHash)\<close> is false. Deleting the entry under the
  iterator does not disturb the iteration of a \<open>Map\<close>, so the loop visits the keys the
  map had on entry.
\<close>

fun purge_absent ::
    "string option list \<Rightarrow> string list \<Rightarrow> (string \<times> 'v) list \<Rightarrow> (string \<times> 'v) list" where
  "purge_absent commitHashes [] d = d"
| "purge_absent commitHashes (dataHash # ks) d =
     purge_absent commitHashes ks
       (if Some dataHash \<notin> set commitHashes then map_delete dataHash d else d)"

text \<open>
  Second loop: for each entry of the snapshot \<open>needsCherryPick\<close>,
  \<open>commits.find((commit) => commit.hash === hash)\<close>, then \<open>commit.ref\<close>, which throws a
  \<open>TypeError\<close> when \<open>find\<close> returned \<open>undefined\<close>.
\<close>

fun purge_landed ::
    "commit list \<Rightarrow> string \<Rightarrow> (string \<times> 'v) list \<Rightarrow> (string \<times> 'v) list \<Rightarrow>
     error + (string \<times> 'v) list" where
  "purge_landed commits branch [] d = Inr d"
| "purge_landed commits branch ((h, _) # rest) d =
     (case find (\<lambda>commit. hash commit = Some h) commits of
        None \<Rightarrow> Inl TypeError
      | Some commit \<Rightarrow>
          purge_landed commits branch rest
            (if ref commit = branch then map_delete h d else d))"

text \<open>
  \<open>purgeData\<close> on a cache of decisions \<open>{ message, needsCherryPick }\<close>, the values the
  specification gives the cache. On a \<open>Map\<close> with other values, as \<open>setupData\<close> can load
  it from a file, the function is \<open>purgeData_js\<close> below.
\<close>

definition purgeData :: "data \<Rightarrow> commit list \<Rightarrow> string \<Rightarrow> error + data" where
  "purgeData d commits branch =
     (let commitHashes = map hash commits;
          d1 = purge_absent commitHashes (map fst d) d;
          needsCherryPick = filter (\<lambda>(_, e). entry.needsCherryPick e) d1
      in purge_landed commits branch needsCherryPick d1)"

text \<open>
  Vocabulary for the statements about \<open>purgeData\<close>: \<open>landed commits branch h\<close> says that
  the commit record \<open>commits.find\<close> returns for \<open>h\<close> has \<open>ref = branch\<close>, and \<open>keep\<close> is the
  test an entry passes when neither loop deletes it.
\<close>

definition landed :: "commit list \<Rightarrow> string \<Rightarrow> string \<Rightarrow> bool" where
  "landed commits branch h =
     (case find (\<lambda>commit. hash commit = Some h) commits of
        None \<Rightarrow> False
      | Some commit \<Rightarrow> ref commit = branch)"

definition keep :: "commit list \<Rightarrow> string \<Rightarrow> string \<times> entry \<Rightarrow> bool" where
  "keep commits branch =
     (\<lambda>(k, e). Some k \<in> set (map hash commits) \<and>
        \<not> (entry.needsCherryPick e \<and> landed commits branch k))"

subsection \<open>\<open>sanitizeMessage\<close>, \<open>isLineUI\<close>, \<open>isCommitChore\<close>\<close>

text \<open>\<open>sanitizeMessage\<close>\<close>

definition sanitizeMessage :: "string \<Rightarrow> string" where
  "sanitizeMessage message' =
     (let message' = replace message' ''['' [backslash, CHR ''[''];
          message' = replace message' '']'' [backslash, CHR '']'']
      in message')"

text \<open>\<open>isLineUI\<close> and \<open>MARKS\<close>\<close>

definition MARKS :: "string list" where
  "MARKS = [''o'', '' /'', [CHR ''|'', backslash], ''| o'', [CHR ''|'', backslash, CHR ''|'']]"

definition isLineUI :: "string \<Rightarrow> bool" where
  "isLineUI l = list_ex (\<lambda>mark. startsWith l mark) MARKS"

text \<open>\<open>isCommitChore\<close>\<close>

definition isCommitChore :: "string \<Rightarrow> bool" where
  "isCommitChore l =
     (match_merge_into_next l \<or>
      str_includes l ''chore: update yarn.lock'' \<or>
      str_includes l ''Version docs'' \<or>
      str_includes l ''chore: update all contributors'')"

subsection \<open>The queries to \<open>git\<close>\<close>

text \<open>
  The command runner \<open>$\<close> of \<open>zx\<close> is the boundary of the model: a command is the list
  of its words, and the runner returns the standard output or throws (\<open>ProcessOutput\<close>)
  when the command exits with a failure. The \<open>git\<close> commands of this library only read
  the repository, so one run of a script sees one function from commands to outputs.
\<close>

type_synonym shell = "string list \<Rightarrow> error + string"

definition isCommitInRef :: "shell \<Rightarrow> string \<Rightarrow> string \<Rightarrow> error + bool" where
  "isCommitInRef sh r message' =
     (case sh [''git'', ''log'', r, ''--oneline'', ''--grep'', message'] of
        Inl e \<Rightarrow> Inl e
      | Inr stdout \<Rightarrow> Inr (trim stdout \<noteq> []))"

definition getCommitMessage :: "shell \<Rightarrow> string \<Rightarrow> error + string" where
  "getCommitMessage sh h =
     (case sh [''git'', ''log'', ''--format=%s'', ''-n'', ''1'', h] of
        Inl e \<Rightarrow> Inl e
      | Inr stdout \<Rightarrow> Inr (trim stdout))"

definition getSymmetricDifference ::
    "shell \<Rightarrow> string \<Rightarrow> string \<Rightarrow> string list \<Rightarrow> error + string list" where
  "getSymmetricDifference sh leftRef rightRef options =
     (case sh ([''git'', ''log''] @ options @ [leftRef @ ''...'' @ rightRef]) of
        Inl e \<Rightarrow> Inl e
      | Inr stdout \<Rightarrow> Inr (split (trim stdout) newline))"

text \<open>
  The test of the \<open>triage-next\<close> handler that reports the two branches as the same:
  \<open>stdout.length === 1 && stdout[0] === ''\<close>.
\<close>

definition branches_are_the_same :: "string list \<Rightarrow> bool" where
  "branches_are_the_same stdout = (length stdout = 1 \<and> hd stdout = [])"

subsection \<open>\<open>mungeCommits\<close>\<close>

text \<open>
  \<open>mungeCommits\<close> is called with \<open>this = { from, to, refsToColors }\<close>; \<open>to\<close> is one ref or an
  array of refs, and the function stores the array form back into \<open>this.to\<close>.
\<close>

datatype to_refs = OneRef string | ManyRefs "string list"

record this_object =
  this_from :: string
  this_to :: to_refs
  this_refsToColors :: "(string \<rightharpoonup> string) option"

definition to_array :: "to_refs \<Rightarrow> string list" where
  "to_array t = (case t of OneRef r \<Rightarrow> [r] | ManyRefs rs \<Rightarrow> rs)"

text \<open>
  \<open>this.refsToColors?.[ref] ? chalk.dim.hex(this.refsToColors[ref]) : chalk.dim.blue\<close>;
  the empty string is falsy. \<open>refsToColors\<close> is a map from refs to colours: the properties
  an object inherits from its prototype are not modelled.
\<close>

definition prettyFn :: "this_object \<Rightarrow> string \<Rightarrow> string \<Rightarrow> pretty" where
  "prettyFn this r =
     (case this_refsToColors this of
        None \<Rightarrow> DimBlue
      | Some colors \<Rightarrow>
          (case colors r of
             None \<Rightarrow> DimBlue
           | Some color \<Rightarrow> if color \<noteq> [] then DimHex color else DimBlue))"

text \<open>The loop \<open>for (const ref of this.to)\<close>; it has no \<open>break\<close>.\<close>

fun scan_refs :: "shell \<Rightarrow> this_object \<Rightarrow> string \<Rightarrow> string list \<Rightarrow> commit \<Rightarrow> error + commit" where
  "scan_refs sh this msg [] commit = Inr commit"
| "scan_refs sh this msg (r # rs) commit =
     (case isCommitInRef sh r (sanitizeMessage msg) of
        Inl e \<Rightarrow> Inl e
      | Inr found \<Rightarrow>
          scan_refs sh this msg rs
            (if found then commit\<lparr>ref := r, pretty := prettyFn this r (line commit)\<rparr>
             else commit))"

text \<open>
  The body of the loop of \<open>mungeCommits\<close> over the lines: it returns the record pushed
  for the line and \<open>this\<close>, whose \<open>to\<close> is rewritten when the scan is reached.
  \<open>line.match(HASH).groups\<close> throws a \<open>TypeError\<close> when the line has no hash.
\<close>

definition munge_line :: "shell \<Rightarrow> this_object \<Rightarrow> string \<Rightarrow> error + this_object \<times> commit" where
  "munge_line sh this l =
     (let commit = \<lparr>line = l, ref = this_from this, type = Commit, pretty = Plain l,
                     hash = None, message = None, pr = None\<rparr>
      in if isLineUI l then Inr (this, commit\<lparr>type := Ui, pretty := Dim l\<rparr>)
         else
           (case match_HASH l of
              None \<Rightarrow> Inl TypeError
            | Some h \<Rightarrow>
                (case getCommitMessage sh h of
                   Inl e \<Rightarrow> Inl e
                 | Inr msg \<Rightarrow>
                     (let commit = commit\<lparr>hash := Some h, message := Some msg,
                                           pr := match_PR msg\<rparr>
                      in if isCommitChore l
                         then Inr (this, commit\<lparr>type := Chore, pretty := Dim l\<rparr>)
                         else if ANNOTATED_TAG_MESSAGE msg
                         then Inr (this, commit\<lparr>ref := msg, type := Tag,
                                                 pretty := Dim (line commit)\<rparr>)
                         else
                           (let this = this\<lparr>this_to := ManyRefs (to_array (this_to this))\<rparr>
                            in case scan_refs sh this msg (to_array (this_to this)) commit of
                                 Inl e \<Rightarrow> Inl e
                               | Inr commit \<Rightarrow> Inr (this, commit))))))"

fun munge_lines :: "shell \<Rightarrow> this_object \<Rightarrow> string list \<Rightarrow> commit list \<Rightarrow> error + commit list" where
  "munge_lines sh this [] commits = Inr commits"
| "munge_lines sh this (l # ls) commits =
     (case munge_line sh this l of
        Inl e \<Rightarrow> Inl e
      | Inr (this, commit) \<Rightarrow> munge_lines sh this ls (commits @ [commit]))"

definition mungeCommits :: "shell \<Rightarrow> this_object \<Rightarrow> string list \<Rightarrow> error + commit list" where
  "mungeCommits sh this stdout = munge_lines sh this stdout []"

section \<open>The platform: JSON values, objects and maps\<close>

text \<open>
  \<open>setupData\<close> and its exit hook go through \<open>JSON.parse\<close>, \<open>JSON.stringify\<close>,
  \<open>Object.entries\<close>, \<open>Object.fromEntries\<close> and \<open>new Map\<close>. These belong to the platform, not to
  the repository; they are modelled after ECMA-262 on the values a JSON text can denote.
  A number is kept as its JSON text (the model has no floating point), so the model
  says nothing about the value of a number.
\<close>

datatype json =
    JNull
  | JBool bool
  | JNumber string
  | JString string
  | JArray "json list"
  | JObject "(string \<times> json) list"

text \<open>
  The properties of an ordinary object, in the order in which \<open>Object.entries\<close> and
  \<open>JSON.stringify\<close> enumerate them: the keys that are array indices (canonical decimal
  numerals below \<open>2^32 - 1\<close>) first, in ascending numeric order, then the other keys in
  the order of their creation.
\<close>

type_synonym properties = "(string \<times> json) list"

definition double_quote :: char where
  "double_quote = CHR 0x22"

definition digit_char :: "nat \<Rightarrow> char" where
  "digit_char n = char_of (48 + n)"

fun ToString_nat :: "nat \<Rightarrow> string" where
  "ToString_nat n =
     (if n < 10 then [digit_char n] else ToString_nat (n div 10) @ [digit_char (n mod 10)])"

definition digits_value :: "string \<Rightarrow> nat" where
  "digits_value ds = foldl (\<lambda>a c. 10 * a + (of_char c - 48)) 0 ds"

definition array_index :: "string \<Rightarrow> nat option" where
  "array_index k =
     (if k \<noteq> [] \<and> list_all is_digit k \<and> (k = ''0'' \<or> hd k \<noteq> CHR ''0'') \<and>
         digits_value k < 4294967295
      then Some (digits_value k) else None)"

fun insert_index :: "nat \<Rightarrow> string \<Rightarrow> json \<Rightarrow> properties \<Rightarrow> properties" where
  "insert_index i k v [] = [(k, v)]"
| "insert_index i k v ((k', v') # ps) =
     (case array_index k' of
        Some j \<Rightarrow> if j < i then (k', v') # insert_index i k v ps else (k, v) # (k', v') # ps
      | None \<Rightarrow> (k, v) # (k', v') # ps)"

text \<open>
  \<open>CreateDataProperty\<close>: an existing property keeps its place and takes the new value; a
  new one goes to its place among the array indices or to the end.
\<close>

definition CreateDataProperty :: "string \<Rightarrow> json \<Rightarrow> properties \<Rightarrow> properties" where
  "CreateDataProperty k v ps =
     (if k \<in> fst ` set ps then AList.update k v ps
      else (case array_index k of
              Some i \<Rightarrow> insert_index i k v ps
            | None \<Rightarrow> ps @ [(k, v)]))"

text \<open>\<open>Object.fromEntries(map)\<close>, for the entries of a \<open>Map\<close> in its iteration order.\<close>

definition Object_fromEntries :: "(string \<times> json) list \<Rightarrow> json" where
  "Object_fromEntries es = JObject (fold (\<lambda>(k, v). CreateDataProperty k v) es [])"

text \<open>
  \<open>Object.entries(value)\<close>: \<open>null\<close> throws a \<open>TypeError\<close>, a boolean or a number has no own
  properties, a string and an array have their indices.
\<close>

definition indexed :: "json list \<Rightarrow> (string \<times> json) list" where
  "indexed xs = map (\<lambda>i. (ToString_nat i, xs ! i)) [0..<length xs]"

definition Object_entries :: "json \<Rightarrow> error + (string \<times> json) list" where
  "Object_entries v =
     (case v of
        JNull \<Rightarrow> Inl TypeError
      | JBool b \<Rightarrow> Inr []
      | JNumber n \<Rightarrow> Inr []
      | JString s \<Rightarrow> Inr (indexed (map (\<lambda>c. JString [c]) s))
      | JArray xs \<Rightarrow> Inr (indexed xs)
      | JObject ps \<Rightarrow> Inr ps)"

text \<open>
  \<open>new Map(entries)\<close>: a \<open>set\<close> for each entry in turn; \<open>Map.prototype.set\<close> replaces the
  value of a key the map has and appends a new key.
\<close>

definition new_Map :: "(string \<times> json) list \<Rightarrow> (string \<times> json) list" where
  "new_Map es = fold (\<lambda>(k, v). AList.update k v) es []"

subsection \<open>\<open>JSON.stringify(value, null, 2)\<close>\<close>

text \<open>
  \<open>QuoteJSONString\<close> escapes the double quote, the backslash and the control characters
  (\<open>\b \t \n \f \r\<close>, the others as \<open>\u00XX\<close> with lower-case digits).
\<close>

definition hex_digit :: "nat \<Rightarrow> char" where
  "hex_digit n = (if n < 10 then char_of (48 + n) else char_of (87 + n))"

definition quote_char :: "char \<Rightarrow> string" where
  "quote_char c =
     (let n = (of_char c :: nat)
      in if n = 8 then [backslash, CHR ''b'']
         else if n = 9 then [backslash, CHR ''t'']
         else if n = 10 then [backslash, CHR ''n'']
         else if n = 12 then [backslash, CHR ''f'']
         else if n = 13 then [backslash, CHR ''r'']
         else if c = double_quote then [backslash, double_quote]
         else if c = backslash then [backslash, backslash]
         else if n < 32 then [backslash, CHR ''u'', CHR ''0'', CHR ''0'',
                               hex_digit (n div 16), hex_digit (n mod 16)]
         else [c])"

definition QuoteJSONString :: "string \<Rightarrow> string" where
  "QuoteJSONString s = [double_quote] @ concat (map quote_char s) @ [double_quote]"

text \<open>
  \<open>SerializeJSONProperty\<close>, \<open>SerializeJSONArray\<close> and \<open>SerializeJSONObject\<close> with the gap
  of two spaces; \<open>indent\<close> is the indentation of the enclosing value.
\<close>

definition gap :: string where
  "gap = ''  ''"

fun SerializeJSONProperty :: "string \<Rightarrow> json \<Rightarrow> string"
  and SerializeJSONArray :: "string \<Rightarrow> json list \<Rightarrow> string"
  and SerializeJSONObject :: "string \<Rightarrow> properties \<Rightarrow> string" where
  "SerializeJSONProperty indent JNull = ''null''"
| "SerializeJSONProperty indent (JBool b) = (if b then ''true'' else ''false'')"
| "SerializeJSONProperty indent (JNumber n) = n"
| "SerializeJSONProperty indent (JString s) = QuoteJSONString s"
| "SerializeJSONProperty indent (JArray xs) =
     (if xs = [] then ''[]''
      else ''['' @ [newline] @ indent @ gap @ SerializeJSONArray (indent @ gap) xs @
           [newline] @ indent @ '']'')"
| "SerializeJSONProperty indent (JObject ps) =
     (if ps = [] then ''{}''
      else ''{'' @ [newline] @ indent @ gap @ SerializeJSONObject (indent @ gap) ps @
           [newline] @ indent @ ''}'')"
| "SerializeJSONArray indent [] = []"
| "SerializeJSONArray indent (x # xs) =
     SerializeJSONProperty indent x @
     (if xs = [] then [] else '','' @ [newline] @ indent @ SerializeJSONArray indent xs)"
| "SerializeJSONObject indent [] = []"
| "SerializeJSONObject indent (p # ps) =
     QuoteJSONString (fst p) @ '': '' @ SerializeJSONProperty indent (snd p) @
     (if ps = [] then [] else '','' @ [newline] @ indent @ SerializeJSONObject indent ps)"

definition JSON_stringify :: "json \<Rightarrow> string" where
  "JSON_stringify v = SerializeJSONProperty [] v"

subsection \<open>\<open>JSON.parse(text)\<close>\<close>

text \<open>
  A recursive-descent reader of the JSON grammar. White space is space, TAB, LF and CR.
  An escape \<open>\uXXXX\<close> of a code unit above 255 denotes a string outside the model and is
  not read. The reader of values carries a bound on the depth of its recursion, which
  \<open>JSON_parse\<close> sets to the length of the text; a \<open>SyntaxError\<close> is the value \<open>Inl SyntaxError\<close>.
\<close>

definition is_json_ws :: "char \<Rightarrow> bool" where
  "is_json_ws c = (let n = (of_char c :: nat) in n = 32 \<or> n = 9 \<or> n = 10 \<or> n = 13)"

definition skip_ws :: "string \<Rightarrow> string" where
  "skip_ws s = dropWhile is_json_ws s"

definition hex_value :: "char \<Rightarrow> nat option" where
  "hex_value c =
     (let n = (of_char c :: nat)
      in if 48 \<le> n \<and> n \<le> 57 then Some (n - 48)
         else if 97 \<le> n \<and> n \<le> 102 then Some (n - 87)
         else if 65 \<le> n \<and> n \<le> 70 then Some (n - 55)
         else None)"

definition parse_hex4 :: "string \<Rightarrow> char option" where
  "parse_hex4 s =
     (case map hex_value (take 4 s) of
        [Some a, Some b, Some c, Some d] \<Rightarrow>
          if a = 0 \<and> b = 0 then Some (char_of (16 * c + d)) else None
      | _ \<Rightarrow> None)"

definition unescape :: "char \<Rightarrow> char option" where
  "unescape e =
     (if e = double_quote then Some double_quote
      else if e = backslash then Some backslash
      else if e = CHR ''/'' then Some CHR ''/''
      else if e = CHR ''b'' then Some (CHR 0x08)
      else if e = CHR ''f'' then Some (CHR 0x0C)
      else if e = CHR ''n'' then Some (CHR 0x0A)
      else if e = CHR ''r'' then Some (CHR 0x0D)
      else if e = CHR ''t'' then Some (CHR 0x09)
      else None)"

fun parse_string_body :: "string \<Rightarrow> (string \<times> string) option" where
  "parse_string_body [] = None"
| "parse_string_body (c # cs) =
     (if c = double_quote then Some ([], cs)
      else if c = backslash then
        (case cs of
           [] \<Rightarrow> None
         | e # cs' \<Rightarrow>
             if e = CHR ''u'' then
               (case parse_hex4 cs' of
                  None \<Rightarrow> None
                | Some ch \<Rightarrow> map_option (apfst ((#) ch)) (parse_string_body (drop 4 cs')))
             else
               (case unescape e of
                  None \<Rightarrow> None
                | Some ch \<Rightarrow> map_option (apfst ((#) ch)) (parse_string_body cs')))
      else if (of_char c :: nat) < 32 then None
      else map_option (apfst ((#) c)) (parse_string_body cs))"

definition parse_digits :: "string \<Rightarrow> (string \<times> string) option" where
  "parse_digits s =
     (if s \<noteq> [] \<and> is_digit (hd s) then Some (takeWhile is_digit s, dropWhile is_digit s)
      else None)"

definition parse_number :: "string \<Rightarrow> (json \<times> string) option" where
  "parse_number s =
     (let (sign, s0) = (if startsWith s ''-'' then (''-'', tl s) else ([], s)) in
      case (if startsWith s0 ''0'' then Some (''0'', tl s0) else parse_digits s0) of
        None \<Rightarrow> None
      | Some (int_part, s1) \<Rightarrow>
          (case (if startsWith s1 ''.''
                 then map_option (apfst ((#) CHR ''.'')) (parse_digits (tl s1))
                 else Some ([], s1)) of
             None \<Rightarrow> None
           | Some (frac, s2) \<Rightarrow>
               (case (if s2 \<noteq> [] \<and> (hd s2 = CHR ''e'' \<or> hd s2 = CHR ''E'')
                      then (let (esign, s3) =
                                  (if tl s2 \<noteq> [] \<and> (hd (tl s2) = CHR ''+'' \<or> hd (tl s2) = CHR ''-'')
                                   then ([hd (tl s2)], tl (tl s2)) else ([], tl s2))
                            in map_option (apfst (\<lambda>ds. hd s2 # esign @ ds)) (parse_digits s3))
                      else Some ([], s2)) of
                  None \<Rightarrow> None
                | Some (ex, s4) \<Rightarrow> Some (JNumber (sign @ int_part @ frac @ ex), s4))))"

fun parse_value :: "nat \<Rightarrow> string \<Rightarrow> (json \<times> string) option"
  and parse_elements :: "nat \<Rightarrow> string \<Rightarrow> (json list \<times> string) option"
  and parse_members :: "nat \<Rightarrow> string \<Rightarrow> (properties \<times> string) option" where
  "parse_value 0 s = None"
| "parse_value (Suc n) s =
     (if startsWith s ''{'' then
        (if startsWith (skip_ws (tl s)) ''}'' then Some (JObject [], tl (skip_ws (tl s)))
         else map_option (apfst (\<lambda>ms. JObject (fold (\<lambda>(k, v). CreateDataProperty k v) ms [])))
                (parse_members n (skip_ws (tl s))))
      else if startsWith s ''['' then
        (if startsWith (skip_ws (tl s)) '']'' then Some (JArray [], tl (skip_ws (tl s)))
         else map_option (apfst JArray) (parse_elements n (skip_ws (tl s))))
      else if startsWith s [double_quote] then
        map_option (apfst JString) (parse_string_body (tl s))
      else if startsWith s ''true'' then Some (JBool True, drop 4 s)
      else if startsWith s ''false'' then Some (JBool False, drop 5 s)
      else if startsWith s ''null'' then Some (JNull, drop 4 s)
      else parse_number s)"
| "parse_elements 0 s = None"
| "parse_elements (Suc n) s =
     (case parse_value n s of
        None \<Rightarrow> None
      | Some (v, r) \<Rightarrow>
          if startsWith (skip_ws r) '','' then
            map_option (apfst ((#) v)) (parse_elements n (skip_ws (tl (skip_ws r))))
          else if startsWith (skip_ws r) '']'' then Some ([v], tl (skip_ws r))
          else None)"
| "parse_members 0 s = None"
| "parse_members (Suc n) s =
     (if startsWith s [double_quote] then
        (case parse_string_body (tl s) of
           None \<Rightarrow> None
         | Some (k, r) \<Rightarrow>
             if startsWith (skip_ws r) '':'' then
               (case parse_value n (skip_ws (tl (skip_ws r))) of
                  None \<Rightarrow> None
                | Some (v, r') \<Rightarrow>
                    if startsWith (skip_ws r') '','' then
                      map_option (apfst ((#) (k, v)))
                        (parse_members n (skip_ws (tl (skip_ws r'))))
                    else if startsWith (skip_ws r') ''}'' then Some ([(k, v)], tl (skip_ws r'))
                    else None)
             else None)
      else None)"

definition JSON_parse :: "string \<Rightarrow> error + json" where
  "JSON_parse text =
     (case parse_value (length text) (skip_ws text) of
        None \<Rightarrow> Inl SyntaxError
      | Some (v, r) \<Rightarrow> if skip_ws r = [] then Inr v else Inl SyntaxError)"



section \<open>Loading and persisting the cache\<close>

text \<open>
  The file system is a map from paths to contents; \<open>fs.readFileSync\<close> throws when the
  path has no file.
\<close>

type_synonym js_map = "(string \<times> json) list"

type_synonym filesystem = "string \<rightharpoonup> string"

definition readFileSync :: "filesystem \<Rightarrow> string \<Rightarrow> error + string" where
  "readFileSync fs path = (case fs path of None \<Rightarrow> Inl ENOENT | Some content \<Rightarrow> Inr content)"

text \<open>
  \<open>setupData\<close>: the body of its \<open>try\<close> block, and the function with the \<open>catch\<close> that
  replaces every error by \<open>new Map()\<close>. The hook it registers for the exit of the
  process writes the map, as it is then, to the same path.
\<close>

definition setupData_try :: "filesystem \<Rightarrow> string \<Rightarrow> error + js_map" where
  "setupData_try fs path =
     (case readFileSync fs path of
        Inl e \<Rightarrow> Inl e
      | Inr content \<Rightarrow>
          (case JSON_parse content of
             Inl e \<Rightarrow> Inl e
           | Inr dataFile \<Rightarrow>
               (case Object_entries dataFile of
                  Inl e \<Rightarrow> Inl e
                | Inr entries \<Rightarrow> Inr (new_Map entries))))"

definition setupData :: "filesystem \<Rightarrow> string \<Rightarrow> js_map" where
  "setupData fs path =
     (case setupData_try fs path of
        Inl e \<Rightarrow> []
      | Inr dataFile \<Rightarrow> dataFile)"

definition exit_hook :: "string \<Rightarrow> js_map \<Rightarrow> filesystem \<Rightarrow> filesystem" where
  "exit_hook path dataFile fs = fs(path \<mapsto> JSON_stringify (Object_fromEntries dataFile))"

text \<open>
  The object \<open>{ message, needsCherryPick }\<close> that \<open>triageCommits\<close> stores for a decision,
  and the \<open>Map\<close> of these objects for a cache.
\<close>

definition entry_object :: "entry \<Rightarrow> json" where
  "entry_object e =
     JObject [(''message'', JString (entry.message e)),
              (''needsCherryPick'', JBool (entry.needsCherryPick e))]"

definition cache_map :: "data \<Rightarrow> js_map" where
  "cache_map d = map (\<lambda>(k, e). (k, entry_object e)) d"

section \<open>\<open>purgeData\<close> on a loaded cache\<close>

text \<open>
  Both handlers pass the \<open>Map\<close> that \<open>setupData\<close> returns straight to \<open>purgeData\<close>, and
  \<open>setupData\<close> does not look at the values it loads. \<open>purgeData_js\<close> is \<open>purgeData\<close> on such
  a \<open>Map\<close>. Between its loops, the arrow function of the \<open>filter\<close>,
  \<open>([, { needsCherryPick }]) => needsCherryPick\<close>, destructures every value that is left:
  \<open>null\<close> throws a \<open>TypeError\<close>, an object gives its property, and any other value has no
  such property. The result of the arrow function is read as a boolean (\<open>ToBoolean\<close>); a
  number, kept as its text, is falsy when the digits before its exponent are all zero.
\<close>

definition number_is_zero :: "string \<Rightarrow> bool" where
  "number_is_zero lit =
     list_all (\<lambda>c. c = CHR ''0'')
       (filter is_digit (takeWhile (\<lambda>c. c \<noteq> CHR ''e'' \<and> c \<noteq> CHR ''E'') lit))"

definition ToBoolean :: "json \<Rightarrow> bool" where
  "ToBoolean v =
     (case v of
        JNull \<Rightarrow> False
      | JBool b \<Rightarrow> b
      | JNumber lit \<Rightarrow> \<not> number_is_zero lit
      | JString s \<Rightarrow> s \<noteq> []
      | JArray xs \<Rightarrow> True
      | JObject ps \<Rightarrow> True)"

definition destructure_needsCherryPick :: "json \<Rightarrow> error + bool" where
  "destructure_needsCherryPick v =
     (case v of
        JNull \<Rightarrow> Inl TypeError
      | JObject ps \<Rightarrow>
          Inr (case map_of ps ''needsCherryPick'' of None \<Rightarrow> False | Some x \<Rightarrow> ToBoolean x)
      | _ \<Rightarrow> Inr False)"

fun filter_needsCherryPick :: "js_map \<Rightarrow> error + js_map" where
  "filter_needsCherryPick [] = Inr []"
| "filter_needsCherryPick ((k, v) # es) =
     (case destructure_needsCherryPick v of
        Inl e \<Rightarrow> Inl e
      | Inr b \<Rightarrow>
          (case filter_needsCherryPick es of
             Inl e \<Rightarrow> Inl e
           | Inr rest \<Rightarrow> Inr (if b then (k, v) # rest else rest)))"

definition purgeData_js :: "js_map \<Rightarrow> commit list \<Rightarrow> string \<Rightarrow> error + js_map" where
  "purgeData_js d commits branch =
     (let commitHashes = map hash commits;
          d1 = purge_absent commitHashes (map fst d) d
      in case filter_needsCherryPick d1 of
           Inl e \<Rightarrow> Inl e
         | Inr needsCherryPick' \<Rightarrow> purge_landed commits branch needsCherryPick' d1)"

section \<open>The specification's wording, for comparison\<close>

text \<open>
  The specification says that sanitization escapes \<open>[\<close> and \<open>]\<close>: every occurrence gets a
  backslash in front.
\<close>

definition spec_escape_brackets :: "string \<Rightarrow> string" where
  "spec_escape_brackets m =
     concat (map (\<lambda>c. if c = CHR ''['' \<or> c = CHR '']'' then [backslash, c] else [c]) m)"

text \<open>
  The specification's release-tag pattern \<open>v<major>.<minor>.<patch>\<close>: a \<open>v\<close> and three
  decimal numbers separated by dots.
\<close>

definition spec_release_tag :: "string \<Rightarrow> bool" where
  "spec_release_tag m =
     (case m of
        [] \<Rightarrow> False
      | v # rest \<Rightarrow>
          v = CHR ''v'' \<and>
          (case split rest CHR ''.'' of
             [major, minor, patch] \<Rightarrow>
               major \<noteq> [] \<and> list_all is_digit major \<and>
               minor \<noteq> [] \<and> list_all is_digit minor \<and>
               patch \<noteq> [] \<and> list_all is_digit patch
           | _ \<Rightarrow> False))"

section \<open>Concrete runs\<close>

text \<open>
  Scenario B of the specification: the cache holds one decision for \<open>abc123456\<close>, marked
  as needing a cherry pick, and the commit has meanwhile been found in \<open>next\<close>. A second
  entry, for a commit that is no longer listed, and a third, decided as not needed, are
  added to exercise the other two cases.
\<close>

definition scenario_B_data :: data where
  "scenario_B_data =
     [(''abc123456'', \<lparr>entry.message = ''fix: x'', needsCherryPick = True\<rparr>),
      (''0ldc0ffee'', \<lparr>entry.message = ''docs: typo'', needsCherryPick = True\<rparr>),
      (''def987654'', \<lparr>entry.message = ''feat: y'', needsCherryPick = False\<rparr>)]"

definition scenario_B_commits :: "commit list" where
  "scenario_B_commits =
     [\<lparr>line = ''< abc123456 fix: x'', ref = ''next'', type = Commit,
       pretty = DimBlue ''< abc123456 fix: x'', hash = Some ''abc123456'',
       message = Some ''fix: x'', pr = None\<rparr>,
      \<lparr>line = ''< def987654 feat: y'', ref = ''next'', type = Commit,
       pretty = DimBlue ''< def987654 feat: y'', hash = Some ''def987654'',
       message = Some ''feat: y'', pr = None\<rparr>]"

text \<open>
  A line of \<open>git log --oneline --no-abbrev-commit --left-right\<close> for a commit with the
  given subject, and two command runners: \<open>scenario_shell subject refs\<close> answers the
  subject query with \<open>subject\<close> and the \<open>--grep\<close> query with a line for the refs in \<open>refs\<close>
  and with nothing for the others; \<open>tag_shell subject\<close> answers the subject query for
  the hash of the line and fails on every other command.
\<close>

definition scenario_hash :: string where
  "scenario_hash = ''0bb0f8ce075ea1e0f6a7851d80df2bc7d303e756''"

definition scenario_line :: "string \<Rightarrow> string" where
  "scenario_line subject = ''< 0bb0f8ce075ea1e0f6a7851d80df2bc7d303e756 '' @ subject"

definition scenario_shell :: "string \<Rightarrow> string list \<Rightarrow> shell" where
  "scenario_shell subject refs cmd =
     (case cmd of
        [g, lg, a, b, c, d] \<Rightarrow>
          if a = ''--format=%s'' then Inr (subject @ [newline])
          else if b = ''--oneline'' \<and> a \<in> set refs
          then Inr (''0bb0f8ce0 '' @ subject @ [newline])
          else if b = ''--oneline'' then Inr []
          else Inl ProcessOutput
      | _ \<Rightarrow> Inl ProcessOutput)"

definition tag_shell :: "string \<Rightarrow> shell" where
  "tag_shell subject cmd =
     (if cmd = [''git'', ''log'', ''--format=%s'', ''-n'', ''1'', scenario_hash]
      then Inr (subject @ [newline]) else Inl ProcessOutput)"

definition scenario_this :: this_object where
  "scenario_this =
     \<lparr>this_from = ''release/minor/v3.6.0'',
      this_to = ManyRefs [''v3.4.1'', ''v3.4.2'', ''v3.5.0'', ''v3.5.1''],
      this_refsToColors = Some [''v3.4.1'' \<mapsto> ''#ff0000'', ''v3.5.0'' \<mapsto> ''#00ff00'']\<rparr>"

text \<open>The text of a cache file in which the decision for \<open>abc123456\<close> is \<open>null\<close>.\<close>

definition null_cache_text :: string where
  "null_cache_text = ''{'' @ [double_quote] @ ''abc123456'' @ [double_quote] @ '': null}''"

section \<open>Properties of the cache prune\<close>

lemma purge_absent_filter:
  "purge_absent hs ks d = filter (\<lambda>(k, _). k \<in> set ks \<longrightarrow> Some k \<in> set hs) d"
proof (induction ks arbitrary: d)
  case Nil
  then show ?case by simp
next
  case (Cons a ks)
  show ?case
    by (auto simp add: Cons.IH map_delete_def case_prod_unfold intro: filter_cong)
qed

lemma purge_absent_keys:
  "purge_absent hs (map fst d) d = filter (\<lambda>(k, _). Some k \<in> set hs) d"
  unfolding purge_absent_filter by (rule filter_cong) force+

lemma find_hash_Some:
  "Some h \<in> set (map hash commits) \<Longrightarrow>
   \<exists>c. find (\<lambda>commit. hash commit = Some h) commits = Some c"
  by (induction commits) auto

lemma purge_landed_filter:
  "\<forall>k \<in> fst ` set rest. Some k \<in> set (map hash commits) \<Longrightarrow>
   purge_landed commits branch rest d =
     Inr (filter (\<lambda>(k, _). \<not> (k \<in> fst ` set rest \<and> landed commits branch k)) d)"
proof (induction rest arbitrary: d)
  case Nil
  then show ?case by simp
next
  case (Cons a rest)
  obtain h e where a: "a = (h, e)" by (cases a)
  from Cons.prems a obtain c where c: "find (\<lambda>commit. hash commit = Some h) commits = Some c"
    using find_hash_Some by force
  have IH: "\<And>d. purge_landed commits branch rest d =
     Inr (filter (\<lambda>(k, _). \<not> (k \<in> fst ` set rest \<and> landed commits branch k)) d)"
    using Cons by simp
  show ?case
  proof (cases "ref c = branch")
    case True
    then have "landed commits branch h" by (simp add: landed_def c)
    then show ?thesis
      unfolding a
      by (auto simp add: c IH map_delete_def True case_prod_unfold intro!: filter_cong)
  next
    case False
    then have "\<not> landed commits branch h" by (simp add: landed_def c)
    then show ?thesis
      unfolding a by (auto simp add: c IH False case_prod_unfold intro!: filter_cong)
  qed
qed

lemma purgeData_two_filters:
  "purgeData d commits branch =
     Inr (filter (\<lambda>(k, _). \<not> (k \<in> fst ` set (filter (\<lambda>(_, e). entry.needsCherryPick e)
                 (filter (\<lambda>(k, _). Some k \<in> set (map hash commits)) d))
               \<and> landed commits branch k))
           (filter (\<lambda>(k, _). Some k \<in> set (map hash commits)) d))"
proof -
  let ?d1 = "filter (\<lambda>(k, _). Some k \<in> set (map hash commits)) d"
  let ?n = "filter (\<lambda>(_, e). entry.needsCherryPick e) ?d1"
  have 1: "\<forall>k \<in> fst ` set ?n. Some k \<in> set (map hash commits)" by auto
  show ?thesis
    unfolding purgeData_def Let_def purge_absent_keys
    using purge_landed_filter[OF 1] by simp
qed

lemma purgeData_filter:
  assumes "distinct (map fst d)"
  shows "purgeData d commits branch = Inr (filter (keep commits branch) d)"
proof -
  let ?d1 = "filter (\<lambda>(k, _). Some k \<in> set (map hash commits)) d"
  let ?n = "filter (\<lambda>(_, e). entry.needsCherryPick e) ?d1"
  have "\<And>k e. (k, e) \<in> set d \<Longrightarrow>
      (k \<in> fst ` set ?n) = (Some k \<in> set (map hash commits) \<and> entry.needsCherryPick e)"
    using assms by (force dest: eq_key_imp_eq_value)
  then have "filter (\<lambda>(k, _). \<not> (k \<in> fst ` set ?n \<and> landed commits branch k)) ?d1 =
      filter (keep commits branch) d"
    unfolding filter_filter keep_def by (intro filter_cong) auto
  then show ?thesis
    unfolding purgeData_two_filters by simp
qed

lemma map_of_filter_keys:
  "distinct (map fst d) \<Longrightarrow>
   map_of (filter P d) k =
     (case map_of d k of None \<Rightarrow> None | Some e \<Rightarrow> if P (k, e) then Some e else None)"
proof (induction d)
  case Nil
  then show ?case by simp
next
  case (Cons a d)
  obtain k' e' where a: "a = (k', e')" by (cases a)
  from Cons.prems a have nk: "map_of d k' = None"
    by (simp add: map_of_eq_None_iff)
  have nk': "map_of (filter P d) k' = None"
    using Cons.prems a by (auto simp: map_of_eq_None_iff)
  show ?case using Cons a nk nk' by (auto split: option.splits)
qed

text \<open>
  Claim C1. For every cache (a \<open>Map\<close>, so with distinct keys), every list of commit
  records and every target branch, \<open>purgeData\<close> returns normally and, in the cache it
  leaves, (a) no hash that is absent from the hashes of the given commits has an entry,
  (b) no entry with \<open>needsCherryPick = true\<close> whose commit record (the one
  \<open>commits.find\<close> returns) has \<open>ref\<close> equal to the target branch remains, and
  (c) every other key is mapped exactly as before.
\<close>

theorem purgeData_prunes:
  assumes "distinct (map fst d)"
  shows "\<exists>d'. purgeData d commits branch = Inr d' \<and>
     (\<forall>k. Some k \<notin> set (map hash commits) \<longrightarrow> map_of d' k = None) \<and>
     (\<forall>k e c. map_of d k = Some e \<and> entry.needsCherryPick e \<and>
        find (\<lambda>commit. hash commit = Some k) commits = Some c \<and> ref c = branch
        \<longrightarrow> map_of d' k = None) \<and>
     (\<forall>k. Some k \<in> set (map hash commits) \<and>
        \<not> (\<exists>e c. map_of d k = Some e \<and> entry.needsCherryPick e \<and>
              find (\<lambda>commit. hash commit = Some k) commits = Some c \<and> ref c = branch)
        \<longrightarrow> map_of d' k = map_of d k)"
proof -
  let ?d' = "filter (keep commits branch) d"
  have m: "\<And>k. map_of ?d' k =
      (case map_of d k of None \<Rightarrow> None
       | Some e \<Rightarrow> if keep commits branch (k, e) then Some e else None)"
    using assms by (rule map_of_filter_keys)
  have a: "\<forall>k. Some k \<notin> set (map hash commits) \<longrightarrow> map_of ?d' k = None"
    unfolding m by (simp add: keep_def split: option.splits)
  have b: "\<forall>k e c. map_of d k = Some e \<and> entry.needsCherryPick e \<and>
        find (\<lambda>commit. hash commit = Some k) commits = Some c \<and> ref c = branch
        \<longrightarrow> map_of ?d' k = None"
    unfolding m by (simp add: keep_def landed_def split: option.splits)
  have c: "\<forall>k. Some k \<in> set (map hash commits) \<and>
        \<not> (\<exists>e c. map_of d k = Some e \<and> entry.needsCherryPick e \<and>
              find (\<lambda>commit. hash commit = Some k) commits = Some c \<and> ref c = branch)
        \<longrightarrow> map_of ?d' k = map_of d k"
    unfolding m by (auto simp add: keep_def landed_def split: option.splits)
  show ?thesis
    using purgeData_filter[OF assms, of commits branch] a b c by blast
qed

theorem purgeData_prunes_witness:
  "distinct (map fst scenario_B_data) \<and>
   (\<exists>d'. purgeData scenario_B_data scenario_B_commits ''next'' = Inr d' \<and>
      map_of d' ''0ldc0ffee'' = None \<and>
      map_of d' ''abc123456'' = None \<and>
      map_of d' ''def987654'' = Some \<lparr>entry.message = ''feat: y'', needsCherryPick = False\<rparr>)"
proof -
  have h: "distinct (map fst scenario_B_data)"
    by (simp add: scenario_B_data_def)
  from purgeData_prunes[OF h, of scenario_B_commits "''next''"]
  obtain d' where r: "purgeData scenario_B_data scenario_B_commits ''next'' = Inr d'"
    and a: "\<And>k. Some k \<notin> set (map hash scenario_B_commits) \<Longrightarrow> map_of d' k = None"
    and b: "\<And>k e c. map_of scenario_B_data k = Some e \<and> entry.needsCherryPick e \<and>
        find (\<lambda>commit. hash commit = Some k) scenario_B_commits = Some c \<and> ref c = ''next''
        \<Longrightarrow> map_of d' k = None"
    and c: "\<And>k. Some k \<in> set (map hash scenario_B_commits) \<and>
        \<not> (\<exists>e c. map_of scenario_B_data k = Some e \<and> entry.needsCherryPick e \<and>
              find (\<lambda>commit. hash commit = Some k) scenario_B_commits = Some c \<and>
              ref c = ''next'')
        \<Longrightarrow> map_of d' k = map_of scenario_B_data k"
    by blast
  have 1: "map_of d' ''0ldc0ffee'' = None"
    by (rule a) (simp add: scenario_B_commits_def)
  have 2: "map_of d' ''abc123456'' = None"
    by (rule b[of _ "\<lparr>entry.message = ''fix: x'', needsCherryPick = True\<rparr>"
                "hd scenario_B_commits"])
       (simp add: scenario_B_data_def scenario_B_commits_def)
  have "map_of d' ''def987654'' = map_of scenario_B_data ''def987654''"
    by (rule c) (simp add: scenario_B_data_def scenario_B_commits_def)
  then have 3: "map_of d' ''def987654'' =
      Some \<lparr>entry.message = ''feat: y'', needsCherryPick = False\<rparr>"
    by (simp add: scenario_B_data_def)
  show ?thesis using h r 1 2 3 by blast
qed

text \<open>
  Claim C6. For every cache, commit list and target branch, running \<open>purgeData\<close> on the
  cache it has just pruned, with the same commit list and target branch, leaves the
  cache as the first run left it.
\<close>

theorem purgeData_idempotent:
  assumes "distinct (map fst d)"
  shows "(case purgeData d commits branch of
            Inl e \<Rightarrow> Inl e
          | Inr d' \<Rightarrow> purgeData d' commits branch) = purgeData d commits branch"
proof -
  have "distinct (map fst (filter (keep commits branch) d))"
    using assms by (rule distinct_map_filter)
  then show ?thesis
    by (simp add: purgeData_filter[OF assms] purgeData_filter)
qed

theorem purgeData_idempotent_witness:
  "distinct (map fst scenario_B_data) \<and>
   purgeData scenario_B_data scenario_B_commits ''next'' =
     Inr [(''def987654'', \<lparr>entry.message = ''feat: y'', needsCherryPick = False\<rparr>)] \<and>
   purgeData [(''def987654'', \<lparr>entry.message = ''feat: y'', needsCherryPick = False\<rparr>)]
     scenario_B_commits ''next'' =
     Inr [(''def987654'', \<lparr>entry.message = ''feat: y'', needsCherryPick = False\<rparr>)]"
proof -
  have h: "distinct (map fst scenario_B_data)"
    by (simp add: scenario_B_data_def)
  have r: "purgeData scenario_B_data scenario_B_commits ''next'' =
     Inr [(''def987654'', \<lparr>entry.message = ''feat: y'', needsCherryPick = False\<rparr>)]"
    by (simp add: purgeData_def scenario_B_data_def scenario_B_commits_def map_delete_def)
  from purgeData_idempotent[OF h, of scenario_B_commits "''next''"]
  show ?thesis using h r by simp
qed

subsection \<open>On a loaded cache\<close>

lemma filter_needsCherryPick_no_null:
  "JNull \<notin> snd ` set es \<Longrightarrow>
   filter_needsCherryPick es =
     Inr (filter (\<lambda>(k, v). destructure_needsCherryPick v = Inr True) es)"
proof (induction es)
  case Nil
  then show ?case by simp
next
  case (Cons a es)
  obtain k v where a: "a = (k, v)" by (cases a)
  from Cons.prems a have "v \<noteq> JNull" by auto
  then have "\<exists>b. destructure_needsCherryPick v = Inr b"
    by (cases v) (auto simp add: destructure_needsCherryPick_def)
  then obtain b where b: "destructure_needsCherryPick v = Inr b" by blast
  show ?case
    using Cons a by (cases b) (simp_all add: b)
qed

lemma filter_needsCherryPick_null:
  "JNull \<in> snd ` set es \<Longrightarrow> filter_needsCherryPick es = Inl TypeError"
proof (induction es)
  case Nil
  then show ?case by simp
next
  case (Cons a es)
  obtain k v where a: "a = (k, v)" by (cases a)
  show ?case
  proof (cases "v = JNull")
    case True
    then show ?thesis by (simp add: a destructure_needsCherryPick_def)
  next
    case False
    with Cons a have IH: "filter_needsCherryPick es = Inl TypeError" by auto
    from False have "\<exists>b. destructure_needsCherryPick v = Inr b"
      by (cases v) (auto simp add: destructure_needsCherryPick_def)
    then obtain b where b: "destructure_needsCherryPick v = Inr b" by blast
    show ?thesis by (simp add: a b IH)
  qed
qed

text \<open>
  On a cache of decisions, \<open>purgeData_js\<close> is \<open>purgeData\<close>.
\<close>

lemma destructure_entry_object:
  "destructure_needsCherryPick (entry_object e) = Inr (entry.needsCherryPick e)"
  by (simp add: destructure_needsCherryPick_def entry_object_def ToBoolean_def)

lemma cache_map_filter:
  "filter (\<lambda>(k, v). P k) (cache_map d) = cache_map (filter (\<lambda>(k, e). P k) d)"
  by (induction d) (auto simp add: cache_map_def)

lemma purgeData_js_cache_map:
  "purgeData_js (cache_map d) commits branch =
     (case purgeData d commits branch of Inl e \<Rightarrow> Inl e | Inr d' \<Rightarrow> Inr (cache_map d'))"
proof -
  let ?P = "\<lambda>k. Some k \<in> set (map hash commits)"
  let ?d1 = "filter (\<lambda>(k, _). ?P k) d"
  let ?n = "filter (\<lambda>(_, e). entry.needsCherryPick e) ?d1"
  let ?Q = "\<lambda>k. \<not> (k \<in> fst ` set ?n \<and> landed commits branch k)"
  have A: "purge_absent (map hash commits) (map fst (cache_map d)) (cache_map d) = cache_map ?d1"
    unfolding purge_absent_keys by (rule cache_map_filter)
  have nn: "JNull \<notin> snd ` set (cache_map ?d1)"
    by (auto simp add: cache_map_def entry_object_def)
  have "filter (\<lambda>(k, v). destructure_needsCherryPick v = Inr True) (cache_map ?d1) = cache_map ?n"
    by (induction d) (auto simp add: cache_map_def destructure_entry_object)
  then have B: "filter_needsCherryPick (cache_map ?d1) = Inr (cache_map ?n)"
    using filter_needsCherryPick_no_null[OF nn] by simp
  have keys: "fst ` set (cache_map ?n) = fst ` set ?n"
    by (force simp add: cache_map_def)
  have k: "\<forall>k \<in> fst ` set (cache_map ?n). ?P k"
    unfolding keys by auto
  have C: "purge_landed commits branch (cache_map ?n) (cache_map ?d1) =
      Inr (filter (\<lambda>(k, _). ?Q k) (cache_map ?d1))"
    using purge_landed_filter[OF k, of branch "cache_map ?d1"] unfolding keys .
  have D: "filter (\<lambda>(k, _). ?Q k) (cache_map ?d1) = cache_map (filter (\<lambda>(k, _). ?Q k) ?d1)"
    by (rule cache_map_filter)
  have E: "purgeData d commits branch = Inr (filter (\<lambda>(k, _). ?Q k) ?d1)"
    by (rule purgeData_two_filters)
  have "purgeData_js (cache_map d) commits branch = Inr (cache_map (filter (\<lambda>(k, _). ?Q k) ?d1))"
    unfolding purgeData_js_def Let_def A B using C D by simp
  then show ?thesis
    unfolding E by simp
qed

text \<open>
  Claim C10, as the code has it. For every commit list and every cache in which no entry
  whose hash is among the commits has the value \<open>null\<close> (so for every cache of decisions
  \<open>{ message, needsCherryPick }\<close>), \<open>purgeData\<close> does not fail: every key that survives the
  first loop is the hash of one of the given commits, so the \<open>commits.find\<close> of the second
  loop returns a record for it, \<open>commit.ref\<close> is never read from \<open>undefined\<close>, and the call
  returns a cache.
\<close>

theorem purgeData_never_fails:
  assumes "\<And>k. Some k \<in> set (map hash commits) \<Longrightarrow> (k, JNull) \<notin> set d"
  shows "(\<forall>h \<in> fst ` set (purge_absent (map hash commits) (map fst d) d).
            find (\<lambda>commit. hash commit = Some h) commits \<noteq> None) \<and>
         (\<exists>d'. purgeData_js d commits branch = Inr d')"
proof
  show "\<forall>h \<in> fst ` set (purge_absent (map hash commits) (map fst d) d).
       find (\<lambda>commit. hash commit = Some h) commits \<noteq> None"
    unfolding purge_absent_keys using find_hash_Some by fastforce
  let ?d1 = "filter (\<lambda>(k, _). Some k \<in> set (map hash commits)) d"
  let ?n = "filter (\<lambda>(k, v). destructure_needsCherryPick v = Inr True) ?d1"
  have "JNull \<notin> snd ` set ?d1"
    using assms by auto
  then have f: "filter_needsCherryPick ?d1 = Inr ?n"
    by (rule filter_needsCherryPick_no_null)
  have k: "\<forall>k \<in> fst ` set ?n. Some k \<in> set (map hash commits)" by auto
  show "\<exists>d'. purgeData_js d commits branch = Inr d'"
    unfolding purgeData_js_def Let_def purge_absent_keys f
    using purge_landed_filter[OF k] by simp
qed

theorem purgeData_never_fails_witness:
  "JNull \<notin> snd ` set (cache_map scenario_B_data) \<and>
   ''abc123456'' \<in> fst ` set (purge_absent (map hash scenario_B_commits)
       (map fst (cache_map scenario_B_data)) (cache_map scenario_B_data)) \<and>
   find (\<lambda>commit. hash commit = Some ''abc123456'') scenario_B_commits \<noteq> None \<and>
   (\<exists>d'. purgeData_js (cache_map scenario_B_data) scenario_B_commits ''next'' = Inr d')"
proof -
  have n: "JNull \<notin> snd ` set (cache_map scenario_B_data)"
    by (auto simp add: cache_map_def entry_object_def)
  then have h: "\<And>k. Some k \<in> set (map hash scenario_B_commits) \<Longrightarrow>
      (k, JNull) \<notin> set (cache_map scenario_B_data)"
    by force
  have m: "''abc123456'' \<in> fst ` set (purge_absent (map hash scenario_B_commits)
       (map fst (cache_map scenario_B_data)) (cache_map scenario_B_data))"
    by (simp add: cache_map_def scenario_B_data_def scenario_B_commits_def map_delete_def)
  from purgeData_never_fails[OF h, of scenario_B_commits "''next''"]
  show ?thesis using n m by blast
qed

text \<open>
  \<open>setupData\<close> loads the file with a \<open>null\<close> decision as it is, and \<open>purgeData\<close> throws a
  \<open>TypeError\<close> on the loaded cache when the commit is among those given.
\<close>

theorem null_value_counterexample:
  "setupData [''data/triageMainData.json'' \<mapsto> null_cache_text] ''data/triageMainData.json'' =
     [(''abc123456'', JNull)] \<and>
   purgeData_js [(''abc123456'', JNull)] scenario_B_commits ''next'' = Inl TypeError"
proof -
  have p: "JSON_parse null_cache_text = Inr (JObject [(''abc123456'', JNull)])"
    by (simp add: null_cache_text_def JSON_parse_def skip_ws_def is_json_ws_def startsWith_def
        double_quote_def backslash_def CreateDataProperty_def array_index_def is_digit_def)
  have 1: "setupData [''data/triageMainData.json'' \<mapsto> null_cache_text]
      ''data/triageMainData.json'' = [(''abc123456'', JNull)]"
    by (simp add: setupData_def setupData_try_def readFileSync_def p Object_entries_def new_Map_def)
  have 2: "purgeData_js [(''abc123456'', JNull)] scenario_B_commits ''next'' = Inl TypeError"
    by (simp add: purgeData_js_def scenario_B_commits_def destructure_needsCherryPick_def)
  show ?thesis using 1 2 by blast
qed

section \<open>Properties of the commit parser\<close>

lemma match_w9_None_iff:
  "match_w9 l = None \<longleftrightarrow> \<not> (\<exists>i. i + 9 \<le> length l \<and> list_all is_word (take 9 (drop i l)))"
proof (induction l)
  case Nil
  then show ?case by simp
next
  case (Cons c cs)
  have ex: "(\<exists>i. i + 9 \<le> length (c # cs) \<and> list_all is_word (take 9 (drop i (c # cs)))) \<longleftrightarrow>
      (9 \<le> length (c # cs) \<and> list_all is_word (take 9 (c # cs))) \<or>
      (\<exists>i. i + 9 \<le> length cs \<and> list_all is_word (take 9 (drop i cs)))"
    (is "?L \<longleftrightarrow> ?A \<or> ?B")
  proof
    assume ?L
    then obtain i where i: "i + 9 \<le> length (c # cs)" "list_all is_word (take 9 (drop i (c # cs)))"
      by blast
    show "?A \<or> ?B"
    proof (cases i)
      case 0
      with i show ?thesis by simp
    next
      case (Suc j)
      with i have "j + 9 \<le> length cs \<and> list_all is_word (take 9 (drop j cs))" by simp
      then show ?thesis by blast
    qed
  next
    assume "?A \<or> ?B"
    then show ?L
    proof
      assume ?A
      then have "0 + 9 \<le> length (c # cs) \<and> list_all is_word (take 9 (drop 0 (c # cs)))" by simp
      then show ?L by blast
    next
      assume ?B
      then obtain j where "j + 9 \<le> length cs \<and> list_all is_word (take 9 (drop j cs))" by blast
      then have "Suc j + 9 \<le> length (c # cs) \<and> list_all is_word (take 9 (drop (Suc j) (c # cs)))"
        by simp
      then show ?L by blast
    qed
  qed
  show ?case
    unfolding ex using Cons.IH by auto
qed

text \<open>
  Claim C3, as the code has it. For every line that contains no run of nine word
  characters, \<open>parseCommit\<close> throws a \<open>TypeError\<close> (it destructures the \<open>null\<close> that \<open>match\<close>
  returned); it does not return a null or absent result.
\<close>

theorem parseCommit_without_hash_throws:
  assumes "\<not> (\<exists>i. i + 9 \<le> length l \<and> list_all is_word (take 9 (drop i l)))"
  shows "parseCommit l = Inl TypeError"
proof -
  from assms have "match_w9 l = None" by (simp only: match_w9_None_iff not_False_eq_True)
  then show ?thesis by (simp add: parseCommit_def)
qed

theorem parseCommit_without_hash_throws_witness:
  "\<not> (\<exists>i. i + 9 \<le> length ''|/'' \<and> list_all is_word (take 9 (drop i ''|/''))) \<and>
   parseCommit ''|/'' = Inl TypeError"
proof -
  have h: "\<not> (\<exists>i. i + 9 \<le> length ''|/'' \<and> list_all is_word (take 9 (drop i ''|/'')))"
    by simp
  from parseCommit_without_hash_throws[OF h] show ?thesis using h by blast
qed

text \<open>
  The graph connector \<open>|/\<close> has no hash-shaped token, and \<open>parseCommit\<close> raises on it.
\<close>

theorem parseCommit_absent_result_counterexample:
  "match_w9 ''|/'' = None \<and> parseCommit ''|/'' = Inl TypeError"
  by (simp add: parseCommit_def)

text \<open>The first line of Scenario A of the specification.\<close>

lemma parseCommit_example:
  "parseCommit ''abc123456 fix: notes formatting (#42)'' =
     Inr \<lparr>parsed_commit.hash = ''abc123456'', message = ''fix: notes formatting (#42)'',
          pr = Some ''42''\<rparr>"
  by (simp add: parseCommit_def is_word_def is_digit_def)

section \<open>Properties of the symmetric-difference fetcher\<close>

text \<open>
  Claim C7. Whenever the log command prints nothing (or white space only),
  \<open>getSymmetricDifference\<close> returns the list whose one element is the empty string, which
  is not the empty list, and the test of the \<open>triage-next\<close> handler for "the branches
  are the same" holds of that list and of no other.
\<close>

theorem getSymmetricDifference_empty:
  assumes "sh ([''git'', ''log''] @ options @ [leftRef @ ''...'' @ rightRef]) = Inr stdout"
    and "trim stdout = []"
  shows "getSymmetricDifference sh leftRef rightRef options = Inr [[]] \<and>
         [[]] \<noteq> ([] :: string list) \<and>
         (\<forall>lines. branches_are_the_same lines \<longleftrightarrow> lines = [[]])"
proof -
  have "\<And>lines. branches_are_the_same lines \<longleftrightarrow> lines = [[]]"
  proof -
    fix lines :: "string list"
    show "branches_are_the_same lines \<longleftrightarrow> lines = [[]]"
      by (cases lines) (auto simp: branches_are_the_same_def)
  qed
  then show ?thesis
    using assms by (simp add: getSymmetricDifference_def)
qed

theorem getSymmetricDifference_empty_witness:
  "(\<lambda>cmd. Inr []) ([''git'', ''log''] @ [''--oneline''] @ [''next'' @ ''...'' @ ''release/minor/v3.6.0'']) = (Inr [] :: error + string) \<and>
   trim [] = [] \<and>
   getSymmetricDifference (\<lambda>cmd. Inr []) ''next'' ''release/minor/v3.6.0'' [''--oneline''] = Inr [[]] \<and>
   branches_are_the_same [[]]"
proof -
  have h1: "(\<lambda>cmd. Inr []) ([''git'', ''log''] @ [''--oneline''] @ [''next'' @ ''...'' @ ''release/minor/v3.6.0'']) = (Inr [] :: error + string)"
    by simp
  have h2: "trim [] = []" by (simp add: trim_def)
  from getSymmetricDifference_empty[of "\<lambda>cmd. Inr []", OF h1 h2]
  show ?thesis using h2 by simp
qed

section \<open>Properties of message sanitization\<close>

text \<open>
  Claim C8 at the message \<open>docs [skip ci] [wip]\<close>: \<open>sanitizeMessage\<close> escapes the first
  \<open>[\<close> and the first \<open>]\<close> and leaves the second pair as it is, where escaping the square
  brackets of the message gives a backslash in front of all four.
\<close>

theorem sanitizeMessage_second_bracket_unescaped:
  "sanitizeMessage ''docs [skip ci] [wip]'' =
     ''docs '' @ [backslash] @ ''[skip ci'' @ [backslash] @ ''] [wip]'' \<and>
   spec_escape_brackets ''docs [skip ci] [wip]'' =
     ''docs '' @ [backslash] @ ''[skip ci'' @ [backslash] @ ''] '' @ [backslash] @ ''[wip'' @ [backslash] @ '']''"
  by (simp add: sanitizeMessage_def spec_escape_brackets_def startsWith_def backslash_def)

text \<open>
  A message with at most one \<open>[\<close> and at most one \<open>]\<close> has all its square brackets escaped.
\<close>

lemma replace_char_absent:
  "p \<notin> set m \<Longrightarrow> replace m [p] r = m"
  by (induction m) (auto simp add: startsWith_def)

lemma concat_map_absent:
  "p \<notin> set m \<Longrightarrow> concat (map (\<lambda>c. if c = p then r else [c]) m) = m"
  by (induction m) auto

lemma replace_char_once:
  "length (filter (\<lambda>c. c = p) m) \<le> 1 \<Longrightarrow>
   replace m [p] r = concat (map (\<lambda>c. if c = p then r else [c]) m)"
proof (induction m)
  case Nil
  then show ?case by simp
next
  case (Cons c cs)
  show ?case
  proof (cases "c = p")
    case True
    with Cons.prems have "p \<notin> set cs"
      by (auto simp add: filter_empty_conv)
    then show ?thesis
      using True by (simp add: startsWith_def concat_map_absent)
  next
    case False
    with Cons show ?thesis by (simp add: startsWith_def)
  qed
qed

lemma escape_in_two_passes:
  "concat (map (\<lambda>c. if c = CHR '']'' then [backslash, CHR '']''] else [c])
     (concat (map (\<lambda>c. if c = CHR ''['' then [backslash, CHR ''[''] else [c]) m))) =
   spec_escape_brackets m"
  by (induction m) (auto simp add: spec_escape_brackets_def backslash_def)

lemma count_after_first_pass:
  "filter (\<lambda>c. c = CHR '']'')
     (concat (map (\<lambda>c. if c = CHR ''['' then [backslash, CHR ''[''] else [c]) m)) =
   filter (\<lambda>c. c = CHR '']'') m"
  by (induction m) (auto simp add: backslash_def)

lemma sanitizeMessage_one_pair:
  assumes "length (filter (\<lambda>c. c = CHR ''['') m) \<le> 1"
    and "length (filter (\<lambda>c. c = CHR '']'') m) \<le> 1"
  shows "sanitizeMessage m = spec_escape_brackets m"
proof -
  let ?m1 = "concat (map (\<lambda>c. if c = CHR ''['' then [backslash, CHR ''[''] else [c]) m)"
  have 1: "replace m ''['' [backslash, CHR ''[''] = ?m1"
    by (rule replace_char_once[OF assms(1)])
  have "length (filter (\<lambda>c. c = CHR '']'') ?m1) \<le> 1"
    using assms(2) by (simp only: count_after_first_pass)
  then have 2: "replace ?m1 '']'' [backslash, CHR '']''] =
      concat (map (\<lambda>c. if c = CHR '']'' then [backslash, CHR '']''] else [c]) ?m1)"
    by (rule replace_char_once)
  show ?thesis
    by (simp only: sanitizeMessage_def Let_def 1 2 escape_in_two_passes)
qed

section \<open>Properties of the ref classifier\<close>

lemma prettyFn_this_to [simp]: "prettyFn (this\<lparr>this_to := t\<rparr>) = prettyFn this"
  by (rule ext) (simp add: prettyFn_def)

lemma scan_refs_last:
  assumes "\<forall>r \<in> set rs. \<exists>b. isCommitInRef sh r (sanitizeMessage msg) = Inr b"
  shows "scan_refs sh this msg rs commit =
     Inr (let matching = filter (\<lambda>r. isCommitInRef sh r (sanitizeMessage msg) = Inr True) rs
          in if matching = [] then commit
             else commit\<lparr>ref := last matching,
                         pretty := prettyFn this (last matching) (line commit)\<rparr>)"
  using assms
proof (induction rs arbitrary: commit)
  case Nil
  then show ?case by simp
next
  case (Cons r rs)
  from Cons.prems obtain b where b: "isCommitInRef sh r (sanitizeMessage msg) = Inr b" by auto
  have IH: "\<And>commit. scan_refs sh this msg rs commit =
     Inr (let matching = filter (\<lambda>r. isCommitInRef sh r (sanitizeMessage msg) = Inr True) rs
          in if matching = [] then commit
             else commit\<lparr>ref := last matching,
                         pretty := prettyFn this (last matching) (line commit)\<rparr>)"
    using Cons by simp
  show ?case
    by (cases b) (simp_all add: b IH Let_def)
qed

lemma scenario_not_UI: "\<not> isLineUI (scenario_line subject)"
  by (simp add: isLineUI_def MARKS_def scenario_line_def startsWith_def)

lemma scenario_HASH: "match_HASH (scenario_line subject) = Some scenario_hash"
  by (simp add: scenario_line_def scenario_hash_def is_space_def is_word_def)

lemma scenario_message:
  "getCommitMessage (scenario_shell ''fix: x [skip ci]'' refs) scenario_hash = Inr ''fix: x [skip ci]''"
  by (simp add: getCommitMessage_def scenario_shell_def trim_def is_space_def newline_def)

lemma scenario_not_chore: "\<not> isCommitChore (scenario_line ''fix: x [skip ci]'')"
  by code_simp

text \<open>
  Claim C9. For every line that is still of type \<open>commit\<close> after the tag check (not graph
  UI, with a hash whose subject is looked up, not a chore, not a tag message) and whose
  membership queries all return, the loop over the destination refs runs to its end: the
  record keeps \<open>this.from\<close> and its plain \<open>pretty\<close> when no ref has the sanitized message,
  and otherwise takes the ref and the colour of the last ref, in iteration order, that
  has it.
\<close>

theorem scan_last_match_wins:
  assumes "\<not> isLineUI l" and "match_HASH l = Some h" and "getCommitMessage sh h = Inr msg"
    and "\<not> isCommitChore l" and "\<not> ANNOTATED_TAG_MESSAGE msg"
    and "\<forall>r \<in> set (to_array (this_to this)). \<exists>b. isCommitInRef sh r (sanitizeMessage msg) = Inr b"
  shows "\<exists>this' commit. munge_line sh this l = Inr (this', commit) \<and> type commit = Commit \<and>
     (let matching = filter (\<lambda>r. isCommitInRef sh r (sanitizeMessage msg) = Inr True)
                       (to_array (this_to this))
      in if matching = [] then ref commit = this_from this \<and> pretty commit = Plain l
         else ref commit = last matching \<and> pretty commit = prettyFn this (last matching) l)"
proof -
  have "to_array (ManyRefs (to_array (this_to this))) = to_array (this_to this)"
    by (simp add: to_array_def)
  then show ?thesis
    using assms(1-5) by (simp add: munge_line_def Let_def scan_refs_last[OF assms(6)])
qed

theorem scan_last_match_wins_witness:
  "\<not> isLineUI (scenario_line ''fix: x [skip ci]'') \<and>
   match_HASH (scenario_line ''fix: x [skip ci]'') = Some scenario_hash \<and>
   getCommitMessage (scenario_shell ''fix: x [skip ci]'' [''v3.4.1'', ''v3.5.0'']) scenario_hash =
     Inr ''fix: x [skip ci]'' \<and>
   \<not> isCommitChore (scenario_line ''fix: x [skip ci]'') \<and>
   \<not> ANNOTATED_TAG_MESSAGE ''fix: x [skip ci]'' \<and>
   map (\<lambda>r. isCommitInRef (scenario_shell ''fix: x [skip ci]'' [''v3.4.1'', ''v3.5.0'']) r
             (sanitizeMessage ''fix: x [skip ci]''))
     (to_array (this_to scenario_this)) = [Inr True, Inr False, Inr True, Inr False] \<and>
   (\<exists>this' commit.
      munge_line (scenario_shell ''fix: x [skip ci]'' [''v3.4.1'', ''v3.5.0'']) scenario_this
        (scenario_line ''fix: x [skip ci]'') = Inr (this', commit) \<and>
      type commit = Commit \<and> ref commit = ''v3.5.0'' \<and>
      pretty commit = DimHex ''#00ff00'' (scenario_line ''fix: x [skip ci]''))"
proof -
  let ?sh = "scenario_shell ''fix: x [skip ci]'' [''v3.4.1'', ''v3.5.0'']"
  let ?l = "scenario_line ''fix: x [skip ci]''"
  have h1: "\<not> isLineUI ?l" by (rule scenario_not_UI)
  have h2: "match_HASH ?l = Some scenario_hash" by (rule scenario_HASH)
  have h3: "getCommitMessage ?sh scenario_hash = Inr ''fix: x [skip ci]''"
    by (rule scenario_message)
  have h4: "\<not> isCommitChore ?l" by (rule scenario_not_chore)
  have h5: "\<not> ANNOTATED_TAG_MESSAGE ''fix: x [skip ci]''"
    by (simp add: ANNOTATED_TAG_MESSAGE_def)
  have q: "\<And>r. r \<noteq> ''--format=%s'' \<Longrightarrow>
      isCommitInRef ?sh r (sanitizeMessage ''fix: x [skip ci]'') =
      Inr (r = ''v3.4.1'' \<or> r = ''v3.5.0'')"
    by (simp add: isCommitInRef_def scenario_shell_def trim_def is_space_def newline_def)
  have h6: "\<forall>r \<in> set (to_array (this_to scenario_this)).
      \<exists>b. isCommitInRef ?sh r (sanitizeMessage ''fix: x [skip ci]'') = Inr b"
    by (auto simp add: q to_array_def scenario_this_def)
  have m: "filter (\<lambda>r. isCommitInRef ?sh r (sanitizeMessage ''fix: x [skip ci]'') = Inr True)
      (to_array (this_to scenario_this)) = [''v3.4.1'', ''v3.5.0'']"
    by (simp add: q to_array_def scenario_this_def)
  have p: "prettyFn scenario_this ''v3.5.0'' = DimHex ''#00ff00''"
    by (simp add: prettyFn_def scenario_this_def)
  from scan_last_match_wins[OF h1 h2 h3 h4 h5 h6]
  have "\<exists>this' commit. munge_line ?sh scenario_this ?l = Inr (this', commit) \<and>
      type commit = Commit \<and> ref commit = ''v3.5.0'' \<and> pretty commit = DimHex ''#00ff00'' ?l"
    unfolding m Let_def by (simp add: p)
  moreover have "map (\<lambda>r. isCommitInRef ?sh r (sanitizeMessage ''fix: x [skip ci]''))
      (to_array (this_to scenario_this)) = [Inr True, Inr False, Inr True, Inr False]"
    by (simp add: q to_array_def scenario_this_def)
  ultimately show ?thesis using h1 h2 h3 h4 h5 by blast
qed

text \<open>
  Every \<open>v<d>.<d>.<d>\<close> with one-digit numbers is a release tag in the specification's
  wording and matches the pattern of the code.
\<close>

lemma one_digit_tag_is_release_tag:
  "is_digit a \<Longrightarrow> is_digit b \<Longrightarrow> is_digit c \<Longrightarrow>
   spec_release_tag [CHR ''v'', a, CHR ''.'', b, CHR ''.'', c]"
  by (auto simp add: spec_release_tag_def is_digit_def)

lemma single_digit_tag:
  "is_digit a \<Longrightarrow> is_digit b \<Longrightarrow> is_digit c \<Longrightarrow>
   ANNOTATED_TAG_MESSAGE [CHR ''v'', a, CHR ''.'', b, CHR ''.'', c]"
  by (simp add: ANNOTATED_TAG_MESSAGE_def is_line_terminator_def)

text \<open>
  Claim C2, as the code has it. For every line that is not graph UI and not a chore and
  whose looked-up subject is \<open>v<major>.<minor>.<patch>\<close> with a major, a minor and a patch
  number of one digit each, the record gets \<open>type = tag\<close> and the subject as its \<open>ref\<close>,
  and the classification of the line stops there: the result is the same for every
  command runner that answers the subject query alike, whatever it does on a \<open>--grep\<close>
  query.
\<close>

theorem tag_message_classified_as_tag:
  assumes "\<not> isLineUI l" and "match_HASH l = Some h" and "getCommitMessage sh h = Inr msg"
    and "\<not> isCommitChore l"
    and "msg = [CHR ''v'', major, CHR ''.'', minor, CHR ''.'', patch]"
    and "is_digit major" and "is_digit minor" and "is_digit patch"
  shows "munge_line sh this l =
      Inr (this, \<lparr>line = l, ref = msg, type = Tag, pretty = Dim l, hash = Some h,
                   message = Some msg, pr = match_PR msg\<rparr>) \<and>
    (\<forall>sh'. sh' [''git'', ''log'', ''--format=%s'', ''-n'', ''1'', h] =
             sh [''git'', ''log'', ''--format=%s'', ''-n'', ''1'', h]
       \<longrightarrow> munge_line sh' this l = munge_line sh this l)"
proof -
  have t: "ANNOTATED_TAG_MESSAGE msg"
    unfolding assms(5) by (rule single_digit_tag[OF assms(6-8)])
  have "\<And>sh'. sh' [''git'', ''log'', ''--format=%s'', ''-n'', ''1'', h] =
             sh [''git'', ''log'', ''--format=%s'', ''-n'', ''1'', h]
       \<Longrightarrow> getCommitMessage sh' h = Inr msg"
    using assms(3) by (simp add: getCommitMessage_def)
  then show ?thesis
    using assms(1-4) t by (simp add: munge_line_def Let_def)
qed

theorem tag_message_classified_as_tag_witness:
  "\<not> isLineUI (scenario_line ''v3.5.0'') \<and>
   match_HASH (scenario_line ''v3.5.0'') = Some scenario_hash \<and>
   getCommitMessage (tag_shell ''v3.5.0'') scenario_hash = Inr ''v3.5.0'' \<and>
   \<not> isCommitChore (scenario_line ''v3.5.0'') \<and>
   ''v3.5.0'' = [CHR ''v'', CHR ''3'', CHR ''.'', CHR ''5'', CHR ''.'', CHR ''0''] \<and>
   is_digit CHR ''3'' \<and> is_digit CHR ''5'' \<and> is_digit CHR ''0'' \<and>
   munge_line (tag_shell ''v3.5.0'') scenario_this (scenario_line ''v3.5.0'') =
     Inr (scenario_this,
          \<lparr>line = scenario_line ''v3.5.0'', ref = ''v3.5.0'', type = Tag,
           pretty = Dim (scenario_line ''v3.5.0''), hash = Some scenario_hash,
           message = Some ''v3.5.0'', pr = None\<rparr>)"
proof -
  have h1: "\<not> isLineUI (scenario_line ''v3.5.0'')" by (rule scenario_not_UI)
  have h2: "match_HASH (scenario_line ''v3.5.0'') = Some scenario_hash" by (rule scenario_HASH)
  have h3: "getCommitMessage (tag_shell ''v3.5.0'') scenario_hash = Inr ''v3.5.0''"
    by (simp add: getCommitMessage_def tag_shell_def trim_def is_space_def newline_def)
  have h4: "\<not> isCommitChore (scenario_line ''v3.5.0'')" by code_simp
  have h5: "''v3.5.0'' = [CHR ''v'', CHR ''3'', CHR ''.'', CHR ''5'', CHR ''.'', CHR ''0'']"
    by simp
  have d: "is_digit CHR ''3''" "is_digit CHR ''5''" "is_digit CHR ''0''"
    by (simp_all add: is_digit_def)
  have p: "match_PR ''v3.5.0'' = None" by simp
  from tag_message_classified_as_tag[OF h1 h2 h3 h4 h5 d, of scenario_this]
  show ?thesis using h1 h2 h3 h4 d by (simp add: p)
qed

text \<open>
  The subject \<open>v10.0.0\<close> is of the form \<open>v<major>.<minor>.<patch>\<close>, and a line with that
  subject stays of type \<open>commit\<close>, with the ref it started with.
\<close>

theorem multi_digit_tag_counterexample:
  "spec_release_tag ''v10.0.0'' \<and>
   \<not> isLineUI (scenario_line ''v10.0.0'') \<and>
   \<not> isCommitChore (scenario_line ''v10.0.0'') \<and>
   getCommitMessage (scenario_shell ''v10.0.0'' []) scenario_hash = Inr ''v10.0.0'' \<and>
   munge_line (scenario_shell ''v10.0.0'' [])
       \<lparr>this_from = ''main'', this_to = OneRef ''next'', this_refsToColors = None\<rparr>
       (scenario_line ''v10.0.0'') =
     Inr (\<lparr>this_from = ''main'', this_to = ManyRefs [''next''], this_refsToColors = None\<rparr>,
          \<lparr>line = scenario_line ''v10.0.0'', ref = ''main'', type = Commit,
           pretty = Plain (scenario_line ''v10.0.0''), hash = Some scenario_hash,
           message = Some ''v10.0.0'', pr = None\<rparr>)"
proof -
  have 1: "spec_release_tag ''v10.0.0''" by code_simp
  have 2: "\<not> isLineUI (scenario_line ''v10.0.0'')" by (rule scenario_not_UI)
  have 3: "\<not> isCommitChore (scenario_line ''v10.0.0'')" by code_simp
  have 4: "getCommitMessage (scenario_shell ''v10.0.0'' []) scenario_hash = Inr ''v10.0.0''"
    by (simp add: getCommitMessage_def scenario_shell_def trim_def is_space_def newline_def)
  have 5: "\<not> ANNOTATED_TAG_MESSAGE ''v10.0.0''" by (simp add: ANNOTATED_TAG_MESSAGE_def)
  have 6: "isCommitInRef (scenario_shell ''v10.0.0'' []) ''next'' (sanitizeMessage ''v10.0.0'') = Inr False"
    by (simp add: isCommitInRef_def scenario_shell_def trim_def)
  have 7: "match_PR ''v10.0.0'' = None" by simp
  have "munge_line (scenario_shell ''v10.0.0'' [])
       \<lparr>this_from = ''main'', this_to = OneRef ''next'', this_refsToColors = None\<rparr>
       (scenario_line ''v10.0.0'') =
     Inr (\<lparr>this_from = ''main'', this_to = ManyRefs [''next''], this_refsToColors = None\<rparr>,
          \<lparr>line = scenario_line ''v10.0.0'', ref = ''main'', type = Commit,
           pretty = Plain (scenario_line ''v10.0.0''), hash = Some scenario_hash,
           message = Some ''v10.0.0'', pr = None\<rparr>)"
    by (simp add: munge_line_def 2 3 4 5 6 7 scenario_HASH to_array_def)
  then show ?thesis using 1 2 3 4 by blast
qed

section \<open>Properties of the cache load and of persisting\<close>

text \<open>
  Claim C4. For every path, if no file is there or its content is not a JSON text,
  \<open>setupData\<close> returns the empty map: the error is raised inside the \<open>try\<close> block
  (\<open>ENOENT\<close> from reading, \<open>SyntaxError\<close> from parsing) and never reaches the caller.
\<close>

theorem setupData_resilient:
  assumes "fs path = None \<or> (\<exists>content. fs path = Some content \<and> JSON_parse content = Inl SyntaxError)"
  shows "setupData fs path = [] \<and>
         (setupData_try fs path = Inl ENOENT \<or> setupData_try fs path = Inl SyntaxError)"
  using assms
  by (auto simp add: setupData_def setupData_try_def readFileSync_def)

theorem setupData_resilient_witness:
  "setupData Map.empty ''data/triageMainData.json'' = [] \<and>
   JSON_parse ''{not json'' = Inl SyntaxError \<and>
   setupData [''data/triageMainData.json'' \<mapsto> ''{not json''] ''data/triageMainData.json'' = []"
proof -
  have p: "JSON_parse ''{not json'' = Inl SyntaxError"
    by (simp add: JSON_parse_def skip_ws_def is_json_ws_def startsWith_def double_quote_def)
  have 1: "(Map.empty :: filesystem) ''data/triageMainData.json'' = None \<or>
      (\<exists>content. (Map.empty :: filesystem) ''data/triageMainData.json'' = Some content \<and>
         JSON_parse content = Inl SyntaxError)"
    by simp
  have 2: "[''data/triageMainData.json'' \<mapsto> ''{not json''] ''data/triageMainData.json'' = None \<or>
      (\<exists>content. [''data/triageMainData.json'' \<mapsto> ''{not json''] ''data/triageMainData.json'' =
           Some content \<and> JSON_parse content = Inl SyntaxError)"
    using p by simp
  from setupData_resilient[of Map.empty "''data/triageMainData.json''", OF 1]
    setupData_resilient[of "[''data/triageMainData.json'' \<mapsto> ''{not json'']"
      "''data/triageMainData.json''", OF 2] p
  show ?thesis by blast
qed

subsection \<open>Reading back a string\<close>

lemma hex_value_hex_digit: "m < 16 \<Longrightarrow> hex_value (hex_digit m) = Some m"
  by (auto simp add: hex_value_def hex_digit_def Let_def)

lemma parse_hex4_control:
  assumes "(of_char c :: nat) < 32"
  shows "parse_hex4 (CHR ''0'' # CHR ''0'' # hex_digit (of_char c div 16) # hex_digit (of_char c mod 16) # r) = Some c"
proof -
  let ?n = "of_char c :: nat"
  have 1: "hex_value (hex_digit (?n div 16)) = Some (?n div 16)"
    using assms by (intro hex_value_hex_digit) simp
  have 2: "hex_value (hex_digit (?n mod 16)) = Some (?n mod 16)"
    by (intro hex_value_hex_digit) simp
  have 0: "hex_value CHR ''0'' = Some 0" by (simp add: hex_value_def)
  have "?n div 16 = 0 \<or> ?n div 16 = 1" using assms by auto
  show ?thesis
    by (simp add: parse_hex4_def 0 1 2)
qed

lemma parse_string_body_quote_char:
  "parse_string_body (quote_char c @ r) = map_option (apfst ((#) c)) (parse_string_body r)"
proof -
  let ?n = "of_char c :: nat"
  consider (esc) "?n = 8 \<or> ?n = 9 \<or> ?n = 10 \<or> ?n = 12 \<or> ?n = 13"
    | (dq) "c = double_quote" | (bsl) "c = backslash"
    | (ctl) "?n < 32" "\<not> (?n = 8 \<or> ?n = 9 \<or> ?n = 10 \<or> ?n = 12 \<or> ?n = 13)"
    | (lit) "32 \<le> ?n" "c \<noteq> double_quote" "c \<noteq> backslash"
    by fastforce
  then show ?thesis
  proof cases
    case esc
    then have "c = CHR 0x08 \<or> c = CHR 0x09 \<or> c = CHR 0x0A \<or> c = CHR 0x0C \<or> c = CHR 0x0D"
      by (auto intro: of_char_eqI[where ?'a = nat])
    then show ?thesis
      by (auto simp add: quote_char_def unescape_def backslash_def double_quote_def)
  next
    case dq
    then show ?thesis
      by (simp add: quote_char_def unescape_def backslash_def double_quote_def)
  next
    case bsl
    then show ?thesis
      by (simp add: quote_char_def unescape_def backslash_def double_quote_def)
  next
    case ctl
    have ne: "c \<noteq> double_quote" "c \<noteq> backslash"
      using ctl(1) by (auto simp: double_quote_def backslash_def)
    have q: "quote_char c = [backslash, CHR ''u'', CHR ''0'', CHR ''0'',
        hex_digit (?n div 16), hex_digit (?n mod 16)]"
      using ctl ne by (simp add: quote_char_def Let_def)
    show ?thesis
      unfolding q using parse_hex4_control[OF ctl(1)]
      by (simp add: backslash_def double_quote_def)
  next
    case lit
    then have q: "quote_char c = [c]"
      by (auto simp add: quote_char_def Let_def)
    show ?thesis
      unfolding q using lit by simp
  qed
qed

lemma parse_string_body_quoted:
  "parse_string_body (concat (map quote_char s) @ double_quote # r) = Some (s, r)"
  by (induction s) (simp_all add: parse_string_body_quote_char)

lemma QuoteJSONString_parse:
  "parse_string_body (tl (QuoteJSONString s @ r)) = Some (s, r)"
  by (simp add: QuoteJSONString_def parse_string_body_quoted)

lemma startsWith_QuoteJSONString:
  "startsWith (QuoteJSONString s @ r) [double_quote]"
  by (simp add: QuoteJSONString_def startsWith_def)


subsection \<open>Reading back a persisted cache\<close>

lemma skip_ws_indent:
  "list_all is_json_ws w \<Longrightarrow> \<not> is_json_ws c \<Longrightarrow> skip_ws (w @ c # r) = c # r"
  by (induction w) (simp_all add: skip_ws_def)

lemma skip_ws_stop: "\<not> is_json_ws c \<Longrightarrow> skip_ws (c # r) = c # r"
  by (simp add: skip_ws_def)

lemma skip_ws_newline: "skip_ws (newline # r) = skip_ws r"
  by (simp add: skip_ws_def is_json_ws_def newline_def)

lemma skip_ws_space: "skip_ws (CHR '' '' # r) = skip_ws r"
  by (simp add: skip_ws_def is_json_ws_def)

lemma not_ws_quote: "\<not> is_json_ws double_quote"
  by (simp add: is_json_ws_def double_quote_def)

lemma skip_ws_QuoteJSONString:
  "list_all is_json_ws w \<Longrightarrow> skip_ws (w @ QuoteJSONString s @ r) = QuoteJSONString s @ r"
  by (simp add: QuoteJSONString_def skip_ws_indent not_ws_quote)

lemma array_index_message: "array_index ''message'' = None"
  by (simp add: array_index_def is_digit_def)

lemma array_index_needsCherryPick: "array_index ''needsCherryPick'' = None"
  by (simp add: array_index_def is_digit_def)

lemma entry_properties:
  "fold (\<lambda>(k, v). CreateDataProperty k v) [(''message'', m), (''needsCherryPick'', b)] [] =
     [(''message'', m), (''needsCherryPick'', b)]"
  by (simp add: CreateDataProperty_def array_index_message array_index_needsCherryPick)

lemma parse_bool:
  "parse_value (Suc n) (SerializeJSONProperty ind (JBool b) @ r) = Some (JBool b, r)"
  by (cases b) (simp_all add: startsWith_def double_quote_def)

lemma parse_string:
  "parse_value (Suc n) (QuoteJSONString s @ r) = Some (JString s, r)"
proof -
  have 1: "\<not> startsWith (QuoteJSONString s @ r) ''{''" "\<not> startsWith (QuoteJSONString s @ r) ''[''"
    by (simp_all add: QuoteJSONString_def startsWith_def double_quote_def)
  show ?thesis
    by (simp add: 1 startsWith_QuoteJSONString QuoteJSONString_parse)
qed


lemma skip_ws_ws_prefix: "list_all is_json_ws w \<Longrightarrow> skip_ws (w @ r) = skip_ws r"
  by (induction w) (simp_all add: skip_ws_def)

lemma skip_ws_Quote: "skip_ws (QuoteJSONString s @ r) = QuoteJSONString s @ r"
  by (simp add: QuoteJSONString_def skip_ws_def not_ws_quote)

lemma gap_ws: "list_all is_json_ws gap"
  by (simp add: gap_def is_json_ws_def)

lemma startsWith_Cons1: "startsWith (c # cs) [d] \<longleftrightarrow> c = d"
  by (simp add: startsWith_def)

lemma not_startsWith_Quote:
  "d \<noteq> double_quote \<Longrightarrow> \<not> startsWith (QuoteJSONString s @ r) [d]"
  by (auto simp add: QuoteJSONString_def startsWith_def)

lemma parse_value_object:
  assumes "list_all is_json_ws w"
    and "skip_ws body = body"
    and "\<not> startsWith body ''}''"
    and "parse_members n body = Some (ms, r)"
  shows "parse_value (Suc n) (CHR ''{'' # newline # w @ body) =
      Some (JObject (fold (\<lambda>(k, v). CreateDataProperty k v) ms []), r)"
proof -
  have 1: "skip_ws (newline # w @ body) = body"
    using assms(1,2) by (simp add: skip_ws_newline skip_ws_ws_prefix)
  show ?thesis
    using assms(3,4) by (simp add: startsWith_Cons1 1)
qed

lemma parse_members_step_last:
  assumes "skip_ws vt = vt"
    and "parse_value n vt = Some (v, newline # ind @ CHR ''}'' # r)"
    and "list_all is_json_ws ind"
  shows "parse_members (Suc n) (QuoteJSONString k @ '': '' @ vt) = Some ([(k, v)], r)"
proof -
  have 1: "skip_ws (newline # ind @ CHR ''}'' # r) = CHR ''}'' # r"
    using assms(3) by (simp add: skip_ws_newline skip_ws_indent is_json_ws_def)
  have 2: "skip_ws (CHR '':'' # CHR '' '' # vt) = CHR '':'' # CHR '' '' # vt"
    by (simp add: skip_ws_stop is_json_ws_def)
  show ?thesis
    using assms(1,2)
    by (simp add: startsWith_QuoteJSONString QuoteJSONString_parse 1 2 skip_ws_space
        startsWith_Cons1)
qed

lemma parse_members_step_more:
  assumes "skip_ws vt = vt"
    and "parse_value n vt = Some (v, CHR '','' # newline # ind @ M)"
    and "list_all is_json_ws ind"
    and "skip_ws M = M"
  shows "parse_members (Suc n) (QuoteJSONString k @ '': '' @ vt) =
      map_option (apfst ((#) (k, v))) (parse_members n M)"
proof -
  have 1: "skip_ws (CHR '','' # newline # ind @ M) = CHR '','' # newline # ind @ M"
    by (simp add: skip_ws_stop is_json_ws_def)
  have 2: "skip_ws (CHR '':'' # CHR '' '' # vt) = CHR '':'' # CHR '' '' # vt"
    by (simp add: skip_ws_stop is_json_ws_def)
  have 3: "skip_ws (newline # ind @ M) = M"
    using assms(3,4) by (simp add: skip_ws_newline skip_ws_ws_prefix)
  show ?thesis
    using assms(1,2)
    by (simp add: startsWith_QuoteJSONString QuoteJSONString_parse 1 2 3 skip_ws_space
        startsWith_Cons1)
qed

lemma skip_ws_bool: "skip_ws (SerializeJSONProperty ind (JBool b) @ r) = SerializeJSONProperty ind (JBool b) @ r"
  by (cases b) (simp_all add: skip_ws_stop is_json_ws_def)

lemma parse_entry_object:
  assumes "list_all is_json_ws ind"
  shows "parse_value (Suc (Suc (Suc (Suc n)))) (SerializeJSONProperty ind (entry_object e) @ r) =
      Some (entry_object e, r)"
proof -
  let ?m = "entry.message e" and ?b = "entry.needsCherryPick e"
  let ?ind = "ind @ gap"
  have ws: "list_all is_json_ws ?ind"
    using assms gap_ws by simp
  let ?T2 = "QuoteJSONString ''needsCherryPick'' @ '': '' @
      (SerializeJSONProperty ?ind (JBool ?b) @ newline # ind @ CHR ''}'' # r)"
  have m2: "parse_members (Suc (Suc n)) ?T2 = Some ([(''needsCherryPick'', JBool ?b)], r)"
    by (rule parse_members_step_last[OF skip_ws_bool parse_bool assms])
  let ?T1 = "QuoteJSONString ''message'' @ '': '' @
      (QuoteJSONString ?m @ CHR '','' # newline # ?ind @ ?T2)"
  have m1: "parse_members (Suc (Suc (Suc n))) ?T1 =
      map_option (apfst ((#) (''message'', JString ?m))) (parse_members (Suc (Suc n)) ?T2)"
    by (rule parse_members_step_more[OF skip_ws_Quote parse_string ws skip_ws_Quote])
  have t: "SerializeJSONProperty ind (entry_object e) @ r = CHR ''{'' # newline # ?ind @ ?T1"
    by (simp add: entry_object_def)
  have n: "\<not> startsWith ?T1 ''}''"
    by (rule not_startsWith_Quote) (simp add: double_quote_def)
  have "parse_members (Suc (Suc (Suc n))) ?T1 =
      Some ([(''message'', JString ?m), (''needsCherryPick'', JBool ?b)], r)"
    unfolding m1 m2 by simp
  from parse_value_object[OF ws skip_ws_Quote n this]
  show ?thesis
    unfolding t by (simp only: entry_properties entry_object_def)
qed


lemma SerializeJSONObject_begins:
  "ps \<noteq> [] \<Longrightarrow> \<exists>k t. SerializeJSONObject ind ps = QuoteJSONString k @ t"
  by (cases ps) auto

lemma skip_ws_SerializeJSONObject:
  assumes "ps \<noteq> []"
  shows "skip_ws (SerializeJSONObject ind ps @ r) = SerializeJSONObject ind ps @ r"
proof -
  from SerializeJSONObject_begins[OF assms] obtain k t where
    "SerializeJSONObject ind ps = QuoteJSONString k @ t" by blast
  then show ?thesis by (simp add: skip_ws_Quote)
qed

lemma not_startsWith_SerializeJSONObject:
  assumes "ps \<noteq> []"
  shows "\<not> startsWith (SerializeJSONObject ind ps @ r) ''}''"
proof -
  from SerializeJSONObject_begins[OF assms] obtain k t where
    "SerializeJSONObject ind ps = QuoteJSONString k @ t" by blast
  then show ?thesis by (simp add: not_startsWith_Quote double_quote_def)
qed

lemma skip_ws_entry_object:
  "skip_ws (SerializeJSONProperty ind (entry_object e) @ r) =
     SerializeJSONProperty ind (entry_object e) @ r"
  by (simp add: entry_object_def skip_ws_stop is_json_ws_def)

lemma parse_members_cache:
  assumes "ps \<noteq> []" and "\<forall>p \<in> set ps. \<exists>e. snd p = entry_object e" and "length ps + 4 \<le> n"
  shows "parse_members n (SerializeJSONObject gap ps @ newline # CHR ''}'' # r) = Some (ps, r)"
  using assms
proof (induction ps arbitrary: n)
  case Nil
  then show ?case by simp
next
  case (Cons p ps)
  obtain k v where p: "p = (k, v)" by (cases p)
  from Cons.prems(2) p obtain e where v: "v = entry_object e" by auto
  define n' where "n' = n - 5"
  have n: "n = Suc (Suc (Suc (Suc (Suc n'))))"
    using Cons.prems(3) by (simp add: n'_def)
  have n': "length ps \<le> n'"
    using Cons.prems(3) by (simp add: n'_def)
  show ?case
  proof (cases "ps = []")
    case True
    have t: "SerializeJSONObject gap (p # ps) @ newline # CHR ''}'' # r =
        QuoteJSONString k @ '': '' @
          (SerializeJSONProperty gap (entry_object e) @ newline # [] @ CHR ''}'' # r)"
      using True by (simp add: p v)
    have step: "parse_members (Suc (Suc (Suc (Suc (Suc n')))))
        (QuoteJSONString k @ '': '' @
          (SerializeJSONProperty gap (entry_object e) @ newline # [] @ CHR ''}'' # r)) =
        Some ([(k, entry_object e)], r)"
      by (rule parse_members_step_last[OF skip_ws_entry_object parse_entry_object[OF gap_ws]]) simp
    show ?thesis
      unfolding t n step by (simp add: True p v)
  next
    case False
    let ?M = "SerializeJSONObject gap ps @ newline # CHR ''}'' # r"
    have IH: "parse_members (Suc (Suc (Suc (Suc n')))) ?M = Some (ps, r)"
      using Cons.IH[OF False, of "Suc (Suc (Suc (Suc n')))"] Cons.prems(2) n' by simp
    have t: "SerializeJSONObject gap (p # ps) @ newline # CHR ''}'' # r =
        QuoteJSONString k @ '': '' @
          (SerializeJSONProperty gap (entry_object e) @ CHR '','' # newline # gap @ ?M)"
      using False by (simp add: p v)
    have step: "parse_members (Suc (Suc (Suc (Suc (Suc n')))))
        (QuoteJSONString k @ '': '' @
          (SerializeJSONProperty gap (entry_object e) @ CHR '','' # newline # gap @ ?M)) =
        map_option (apfst ((#) (k, entry_object e))) (parse_members (Suc (Suc (Suc (Suc n')))) ?M)"
      by (rule parse_members_step_more[OF skip_ws_entry_object parse_entry_object[OF gap_ws]
            gap_ws skip_ws_SerializeJSONObject[OF False]])
    show ?thesis
      unfolding t n step IH by (simp add: p v)
  qed
qed

lemma length_SerializeJSONObject: "length ps \<le> length (SerializeJSONObject ind ps)"
  by (induction ps) (simp_all add: QuoteJSONString_def)

lemma JSON_parse_stringify_cache:
  assumes "\<forall>p \<in> set ps. \<exists>e. snd p = entry_object e"
  shows "JSON_parse (JSON_stringify (JObject ps)) =
      Inr (JObject (fold (\<lambda>(k, v). CreateDataProperty k v) ps []))"
proof (cases "ps = []")
  case True
  then show ?thesis
    by (simp add: JSON_parse_def JSON_stringify_def skip_ws_def is_json_ws_def startsWith_def)
next
  case False
  let ?body = "SerializeJSONObject gap ps @ newline # CHR ''}'' # []"
  let ?text = "CHR ''{'' # newline # gap @ ?body"
  have t: "JSON_stringify (JObject ps) = ?text"
    using False by (simp add: JSON_stringify_def)
  have len: "length ?text = Suc (length (SerializeJSONObject gap ps) + 5)"
    by (simp add: gap_def)
  have fuel: "length ps + 4 \<le> length (SerializeJSONObject gap ps) + 5"
    using length_SerializeJSONObject[of ps gap] by simp
  have m: "parse_members (length (SerializeJSONObject gap ps) + 5) ?body = Some (ps, [])"
    by (rule parse_members_cache[OF False assms fuel])
  have n: "\<not> startsWith ?body ''}''"
    by (rule not_startsWith_SerializeJSONObject[OF False])
  have v: "parse_value (length ?text) ?text =
      Some (JObject (fold (\<lambda>(k, v). CreateDataProperty k v) ps []), [])"
    unfolding len
    by (rule parse_value_object[OF gap_ws skip_ws_SerializeJSONObject[OF False] n m])
  have s: "skip_ws ?text = ?text"
    by (simp add: skip_ws_stop is_json_ws_def)
  show ?thesis
    unfolding t JSON_parse_def s v by (simp add: skip_ws_def)
qed


subsection \<open>Objects and maps as finite maps\<close>

lemma set_insert_index: "set (insert_index i k v ps) = insert (k, v) (set ps)"
  by (induction ps) (auto split: option.splits if_splits)

lemma map_of_insert_index:
  "k \<notin> fst ` set ps \<Longrightarrow> map_of (insert_index i k v ps) = (map_of ps)(k \<mapsto> v)"
  by (induction ps) (auto split: option.splits if_splits simp: fun_upd_twist)

lemma distinct_insert_index:
  "k \<notin> fst ` set ps \<Longrightarrow> distinct (map fst ps) \<Longrightarrow> distinct (map fst (insert_index i k v ps))"
  by (induction ps) (auto split: option.splits if_splits simp: set_insert_index)

lemma set_update_subset: "set (AList.update k v ps) \<subseteq> insert (k, v) (set ps)"
  by (induction ps) auto

lemma map_of_snoc_new:
  "k \<notin> fst ` set ps \<Longrightarrow> map_of (ps @ [(k, v)]) = (map_of ps)(k \<mapsto> v)"
proof -
  assume "k \<notin> fst ` set ps"
  then have "k \<notin> dom (map_of ps)" by (simp add: dom_map_of_conv_image_fst)
  from map_add_upd_left[OF this, of Map.empty v] show ?thesis by simp
qed

lemma map_of_CreateDataProperty:
  "map_of (CreateDataProperty k v ps) = (map_of ps)(k \<mapsto> v)"
proof (cases "k \<in> fst ` set ps")
  case True
  then show ?thesis by (simp add: CreateDataProperty_def update_conv')
next
  case False
  then show ?thesis
    by (cases "array_index k")
       (simp_all add: CreateDataProperty_def map_of_insert_index map_of_snoc_new del: map_of_append)
qed

lemma distinct_CreateDataProperty:
  "distinct (map fst ps) \<Longrightarrow> distinct (map fst (CreateDataProperty k v ps))"
  by (auto simp add: CreateDataProperty_def distinct_update distinct_insert_index
      split: option.splits)

lemma set_CreateDataProperty: "set (CreateDataProperty k v ps) \<subseteq> insert (k, v) (set ps)"
  using set_update_subset[of k v ps]
  by (auto simp add: CreateDataProperty_def set_insert_index split: option.splits)

lemma map_of_fold_CreateDataProperty:
  "map_of (fold (\<lambda>(k, v). CreateDataProperty k v) es acc) = map_of acc ++ map_of (rev es)"
proof (induction es arbitrary: acc)
  case Nil
  then show ?case by simp
next
  case (Cons a es)
  obtain k v where a: "a = (k, v)" by (cases a)
  show ?case
    by (simp add: a Cons.IH map_of_CreateDataProperty) (simp add: fun_upd_def)
qed

lemma distinct_fold_CreateDataProperty:
  "distinct (map fst acc) \<Longrightarrow>
   distinct (map fst (fold (\<lambda>(k, v). CreateDataProperty k v) es acc))"
  by (induction es arbitrary: acc) (auto simp add: distinct_CreateDataProperty)

lemma set_fold_CreateDataProperty:
  "set (fold (\<lambda>(k, v). CreateDataProperty k v) es acc) \<subseteq> set es \<union> set acc"
proof (induction es arbitrary: acc)
  case Nil
  then show ?case by simp
next
  case (Cons a es)
  obtain k v where a: "a = (k, v)" by (cases a)
  show ?case
    using Cons.IH[of "CreateDataProperty k v acc"] set_CreateDataProperty[of k v acc]
    by (auto simp add: a)
qed

lemma map_of_fold_update:
  "map_of (fold (\<lambda>(k, v). AList.update k v) es acc) = map_of acc ++ map_of (rev es)"
proof (induction es arbitrary: acc)
  case Nil
  then show ?case by simp
next
  case (Cons a es)
  obtain k v where a: "a = (k, v)" by (cases a)
  show ?case
    by (simp add: a Cons.IH update_conv') (simp add: fun_upd_def)
qed

lemma distinct_fold_update:
  "distinct (map fst acc) \<Longrightarrow> distinct (map fst (fold (\<lambda>(k, v). AList.update k v) es acc))"
  by (induction es arbitrary: acc) (auto simp add: distinct_update)

lemma map_of_rev_distinct:
  "distinct (map fst es) \<Longrightarrow> map_of (rev es) = map_of es"
proof (induction es)
  case Nil
  then show ?case by simp
next
  case (Cons a es)
  obtain k v where a: "a = (k, v)" by (cases a)
  from Cons.prems a have "k \<notin> dom (map_of es)"
    by (simp add: dom_map_of_conv_image_fst)
  from map_add_upd_left[OF this, of Map.empty v] show ?case
    using Cons a by simp
qed

text \<open>
  Claim C5. For every cache from commit hashes to \<open>{ message, needsCherryPick }\<close>, after
  the exit hook has written the cache to a path, \<open>setupData\<close> on that path returns a map
  that maps every hash exactly as the cache did (and has each key once). The order in
  which the returned \<open>Map\<close> iterates may differ from that of the cache.
\<close>

theorem persist_load_round_trip:
  assumes "distinct (map fst d)"
  shows "map_of (setupData (exit_hook path (cache_map d) fs) path) = map_of (cache_map d) \<and>
         distinct (map fst (setupData (exit_hook path (cache_map d) fs) path))"
proof -
  let ?es = "cache_map d"
  let ?ps0 = "fold (\<lambda>(k, v). CreateDataProperty k v) ?es []"
  let ?ps1 = "fold (\<lambda>(k, v). CreateDataProperty k v) ?ps0 []"
  have keys: "map fst ?es = map fst d"
    by (simp add: cache_map_def case_prod_unfold)
  have d_es: "distinct (map fst ?es)"
    using assms keys by simp
  have vals: "\<forall>p \<in> set ?es. \<exists>e. snd p = entry_object e"
    by (auto simp add: cache_map_def)
  have vals0: "\<forall>p \<in> set ?ps0. \<exists>e. snd p = entry_object e"
    using set_fold_CreateDataProperty[of ?es "[]"] vals by auto
  have d0: "distinct (map fst ?ps0)"
    by (rule distinct_fold_CreateDataProperty) simp
  have d1: "distinct (map fst ?ps1)"
    by (rule distinct_fold_CreateDataProperty) simp
  have m0: "map_of ?ps0 = map_of ?es"
    by (simp add: map_of_fold_CreateDataProperty map_of_rev_distinct[OF d_es])
  have m1: "map_of ?ps1 = map_of ?ps0"
    by (simp add: map_of_fold_CreateDataProperty map_of_rev_distinct[OF d0])
  have m2: "map_of (new_Map ?ps1) = map_of ?ps1"
    by (simp add: new_Map_def map_of_fold_update map_of_rev_distinct[OF d1])
  have d2: "distinct (map fst (new_Map ?ps1))"
    unfolding new_Map_def by (rule distinct_fold_update) simp
  have "JSON_parse (JSON_stringify (Object_fromEntries ?es)) = Inr (JObject ?ps1)"
    unfolding Object_fromEntries_def by (rule JSON_parse_stringify_cache[OF vals0])
  then have "setupData (exit_hook path ?es fs) path = new_Map ?ps1"
    by (simp add: setupData_def setupData_try_def readFileSync_def exit_hook_def
        Object_entries_def)
  then show ?thesis
    using m0 m1 m2 d2 by simp
qed

theorem persist_load_round_trip_witness:
  "distinct (map fst scenario_B_data) \<and>
   map_of (setupData (exit_hook ''data/triageMainData.json'' (cache_map scenario_B_data) Map.empty)
             ''data/triageMainData.json'') = map_of (cache_map scenario_B_data)"
proof -
  have h: "distinct (map fst scenario_B_data)"
    by (simp add: scenario_B_data_def)
  from persist_load_round_trip[OF h, of "''data/triageMainData.json''" Map.empty]
  show ?thesis using h by blast
qed

subsection \<open>The order of the loaded map, and the text of the file\<close>

text \<open>
  When no hash is an array index (a full hash of forty characters never is), the loaded
  \<open>Map\<close> also iterates in the order of the persisted one.
\<close>

lemma update_new_key:
  "k \<notin> fst ` set ps \<Longrightarrow> AList.update k v ps = ps @ [(k, v)]"
  by (induction ps) auto

lemma fold_CreateDataProperty_plain_keys:
  "distinct (map fst (acc @ es)) \<Longrightarrow> \<forall>k \<in> fst ` set es. array_index k = None \<Longrightarrow>
   fold (\<lambda>(k, v). CreateDataProperty k v) es acc = acc @ es"
proof (induction es arbitrary: acc)
  case Nil
  then show ?case by simp
next
  case (Cons a es)
  obtain k v where a: "a = (k, v)" by (cases a)
  from Cons.prems a have 1: "CreateDataProperty k v acc = acc @ [(k, v)]"
    by (auto simp add: CreateDataProperty_def)
  from Cons.prems a have 2: "distinct (map fst ((acc @ [(k, v)]) @ es))" by auto
  from Cons.prems have 3: "\<forall>k \<in> fst ` set es. array_index k = None" by simp
  show ?case
    using Cons.IH[OF 2 3] by (simp add: a 1)
qed

lemma fold_update_new_keys:
  "distinct (map fst (acc @ es)) \<Longrightarrow> fold (\<lambda>(k, v). AList.update k v) es acc = acc @ es"
proof (induction es arbitrary: acc)
  case Nil
  then show ?case by simp
next
  case (Cons a es)
  obtain k v where a: "a = (k, v)" by (cases a)
  from Cons.prems a have 1: "AList.update k v acc = acc @ [(k, v)]"
    by (intro update_new_key) auto
  from Cons.prems a have 2: "distinct (map fst ((acc @ [(k, v)]) @ es))" by auto
  show ?case
    using Cons.IH[OF 2] by (simp add: a 1)
qed

lemma persist_load_keeps_order:
  assumes "distinct (map fst d)" and "\<forall>k \<in> fst ` set d. array_index k = None"
  shows "setupData (exit_hook path (cache_map d) fs) path = cache_map d"
proof -
  let ?es = "cache_map d"
  have keys: "map fst ?es = map fst d"
    by (simp add: cache_map_def case_prod_unfold)
  have d_es: "distinct (map fst ([] @ ?es))"
    using assms(1) keys by simp
  have plain: "\<forall>k \<in> fst ` set ?es. array_index k = None"
    using assms(2) keys by (metis list.set_map)
  have vals: "\<forall>p \<in> set ?es. \<exists>e. snd p = entry_object e"
    by (auto simp add: cache_map_def)
  have f: "fold (\<lambda>(k, v). CreateDataProperty k v) ?es [] = ?es"
    using fold_CreateDataProperty_plain_keys[OF d_es plain] by simp
  have m: "new_Map ?es = ?es"
    unfolding new_Map_def using fold_update_new_keys[OF d_es] by simp
  have "JSON_parse (JSON_stringify (Object_fromEntries ?es)) = Inr (JObject ?es)"
    unfolding Object_fromEntries_def f using JSON_parse_stringify_cache[OF vals] by (simp add: f)
  then show ?thesis
    by (simp add: setupData_def setupData_try_def readFileSync_def exit_hook_def
        Object_entries_def m)
qed

text \<open>The text the exit hook writes for a cache with one decision.\<close>

lemma persisted_text_example:
  "JSON_stringify (Object_fromEntries
      (cache_map [(''abc123456'', \<lparr>entry.message = ''fix: x'', needsCherryPick = True\<rparr>)])) =
   ''{'' @ [newline] @
   ''  '' @ [double_quote] @ ''abc123456'' @ [double_quote] @ '': {'' @ [newline] @
   ''    '' @ [double_quote] @ ''message'' @ [double_quote] @ '': '' @
              [double_quote] @ ''fix: x'' @ [double_quote] @ '','' @ [newline] @
   ''    '' @ [double_quote] @ ''needsCherryPick'' @ [double_quote] @ '': true'' @ [newline] @
   ''  }'' @ [newline] @
   ''}''"
  by (simp add: JSON_stringify_def Object_fromEntries_def cache_map_def entry_object_def
      CreateDataProperty_def array_index_def is_digit_def QuoteJSONString_def quote_char_def
      gap_def double_quote_def backslash_def newline_def)

end
